theory Spec2Isabelle
  imports Main "HOL-Library.Word"
begin

section \<open>Bytes, errors and the ByteBuffer cursor\<close>

text \<open>
  The codec works on \<open>Uint8Array\<close>/\<open>ArrayBuffer\<close>/\<open>Buffer\<close> values, modelled as lists of
  8-bit words, and on the \<open>ByteBuffer\<close> class of the bytebuffer library: a backing buffer
  with a read/write cursor \<open>offset\<close> and an end mark \<open>limit\<close>. The library is not part of
  the repository; the operations the codec calls are modelled by their documented
  behaviour (big-endian by default, relative reads and writes advance \<open>offset\<close>, argument
  assertions enabled by default). JavaScript numbers are modelled as \<open>int\<close>; non-integral
  numbers are outside the model, and so are the limits of the engine on the size of a
  buffer.
\<close>

type_synonym byte = "8 word"

datatype error =
    RangeError            \<comment> \<open>ByteBuffer: read past the end of the backing buffer\<close>
  | TypeError             \<comment> \<open>property access on null/undefined; ByteBuffer: illegal value\<close>
  | HeaderSignatureError  \<comment> \<open>\<open>Error("Didn't receive expected header signature.")\<close>\<close>
  | MessageNotFound       \<comment> \<open>\<open>Error("The message name ... is not found.")\<close>\<close>
  | BuilderError          \<comment> \<open>an error raised by the protobuf builder\<close>
  | StackOverflow         \<comment> \<open>call stack exhausted by a recursion\<close>

record bytebuffer =
  buffer :: "byte list"
  offset :: nat
  limit :: nat

text \<open>\<open>ByteBuffer.wrap(bytes)\<close> and \<open>ByteBuffer.concat([data])\<close>: a cursor at 0 over the bytes.\<close>

definition wrap :: "byte list \<Rightarrow> bytebuffer" where
  "wrap bytes = \<lparr>buffer = bytes, offset = 0, limit = length bytes\<rparr>"

definition concat_one :: "byte list \<Rightarrow> bytebuffer" where
  "concat_one data = \<lparr>buffer = data, offset = 0, limit = length data\<rparr>"

text \<open>\<open>readByte\<close> is \<open>readInt8\<close>: one byte, read as a signed value.\<close>

definition readByte :: "bytebuffer \<Rightarrow> error + (int \<times> bytebuffer)" where
  "readByte bb =
     (if offset bb + 1 > length (buffer bb) then Inl RangeError
      else Inr (sint (buffer bb ! offset bb), bb\<lparr>offset := offset bb + 1\<rparr>))"

definition readUint16 :: "bytebuffer \<Rightarrow> error + (int \<times> bytebuffer)" where
  "readUint16 bb =
     (if offset bb + 2 > length (buffer bb) then Inl RangeError
      else Inr (uint (buffer bb ! offset bb) * 256 + uint (buffer bb ! (offset bb + 1)),
                bb\<lparr>offset := offset bb + 2\<rparr>))"

definition readUint32 :: "bytebuffer \<Rightarrow> error + (int \<times> bytebuffer)" where
  "readUint32 bb =
     (if offset bb + 4 > length (buffer bb) then Inl RangeError
      else Inr (uint (buffer bb ! offset bb) * 16777216
                + uint (buffer bb ! (offset bb + 1)) * 65536
                + uint (buffer bb ! (offset bb + 2)) * 256
                + uint (buffer bb ! (offset bb + 3)),
                bb\<lparr>offset := offset bb + 4\<rparr>))"

text \<open>\<open>toBuffer()\<close>: the contents, which are the bytes between \<open>offset\<close> and \<open>limit\<close>.\<close>

definition toBuffer :: "bytebuffer \<Rightarrow> byte list" where
  "toBuffer bb = take (limit bb - offset bb) (drop (offset bb) (buffer bb))"

section \<open>Receiving: header parsing\<close>

definition MESSAGE_HEADER_BYTE :: int where
  "MESSAGE_HEADER_BYTE = 0x23"

record header =
  typeId :: int
  length_field :: int

record header_chunked = header +
  sharp1 :: int
  sharp2 :: int

definition readHeader :: "bytebuffer \<Rightarrow> error + (header \<times> bytebuffer)" where
  "readHeader buf =
     (case readUint16 buf of Inl e \<Rightarrow> Inl e
      | Inr (t, buf1) \<Rightarrow>
     (case readUint32 buf1 of Inl e \<Rightarrow> Inl e
      | Inr (l, buf2) \<Rightarrow> Inr (\<lparr>typeId = t, length_field = l\<rparr>, buf2)))"

definition readHeaderChunked :: "bytebuffer \<Rightarrow> error + (header_chunked \<times> bytebuffer)" where
  "readHeaderChunked buf =
     (case readByte buf of Inl e \<Rightarrow> Inl e
      | Inr (s1, buf1) \<Rightarrow>
     (case readByte buf1 of Inl e \<Rightarrow> Inl e
      | Inr (s2, buf2) \<Rightarrow>
     (case readUint16 buf2 of Inl e \<Rightarrow> Inl e
      | Inr (t, buf3) \<Rightarrow>
     (case readUint32 buf3 of Inl e \<Rightarrow> Inl e
      | Inr (l, buf4) \<Rightarrow>
          Inr (\<lparr>typeId = t, length_field = l, sharp1 = s1, sharp2 = s2\<rparr>, buf4)))))"

record decoded =
  decoded_typeId :: int
  decoded_buffer :: "byte list"

definition decode :: "byte list \<Rightarrow> error + decoded" where
  "decode data =
     (let byteBuffer = concat_one data in
      case readHeader byteBuffer of Inl e \<Rightarrow> Inl e
      | Inr (h, byteBuffer') \<Rightarrow>
          Inr \<lparr>decoded_typeId = typeId h, decoded_buffer = toBuffer byteBuffer'\<rparr>)"

record decoded_chunked =
  chunked_length :: int
  chunked_typeId :: int
  restBuffer :: bytebuffer

definition decodeChunked :: "byte list \<Rightarrow> error + decoded_chunked" where
  "decodeChunked bytes =
     (let byteBuffer = wrap bytes in
      case readHeaderChunked byteBuffer of Inl e \<Rightarrow> Inl e
      | Inr (h, byteBuffer') \<Rightarrow>
          if sharp1 h \<noteq> MESSAGE_HEADER_BYTE \<or> sharp2 h \<noteq> MESSAGE_HEADER_BYTE
          then Inl HeaderSignatureError
          else Inr \<lparr>chunked_length = length_field h, chunked_typeId = typeId h,
                    restBuffer = byteBuffer'\<rparr>)"

section \<open>Sending: JavaScript values and input cleanup\<close>

text \<open>
  The \<open>data\<close> argument is a "pure" JavaScript object: a tree of objects, arrays and
  primitives, without sharing or cycles. An object is the list of its own enumerable
  properties in \<open>for ... in\<close> order (keys distinct); an array is the list of its elements,
  \<open>None\<close> being a hole (an index with no property, as \<open>delete arr[i]\<close> leaves behind).
\<close>

datatype jsval =
    JUndefined
  | JNull
  | JBool bool
  | JNum int
  | JStr string
  | JArr "jsval option list"
  | JObj "(string \<times> jsval) list"

text \<open>\<open>value == null\<close>, \<open>typeof value === `object`\<close>, \<open>typeof value === `number`\<close> and truthiness.
  \<open>Array.isArray(value)\<close> is a match on \<open>JArr\<close>.\<close>

fun is_nullish :: "jsval \<Rightarrow> bool" where
  "is_nullish JUndefined = True"
| "is_nullish JNull = True"
| "is_nullish _ = False"

fun typeof_object :: "jsval \<Rightarrow> bool" where
  "typeof_object JNull = True"
| "typeof_object (JArr _) = True"
| "typeof_object (JObj _) = True"
| "typeof_object _ = False"

fun typeof_number :: "jsval \<Rightarrow> bool" where
  "typeof_number (JNum _) = True"
| "typeof_number _ = False"

fun truthy :: "jsval \<Rightarrow> bool" where
  "truthy JUndefined = False"
| "truthy JNull = False"
| "truthy (JBool b) = b"
| "truthy (JNum n) = (n \<noteq> 0)"
| "truthy (JStr s) = (s \<noteq> [])"
| "truthy (JArr _) = True"
| "truthy (JObj _) = True"

text \<open>
  \<open>cleanupInput\<close> mutates its argument in place and may throw half way through. Every
  function below returns the state of the object it was given after the call, together
  with the error thrown, if any. The callback \<open>rec\<close> is the recursive call.

  \<open>value.forEach((i) => { if (typeof i === `object`) { cleanupInput(i); } })\<close>:
  holes are skipped.
\<close>

fun forEach_cleanup ::
  "(jsval \<Rightarrow> jsval \<times> error option) \<Rightarrow> jsval option list \<Rightarrow> jsval option list \<times> error option"
where
  "forEach_cleanup rec [] = ([], None)"
| "forEach_cleanup rec (None # es) =
     (case forEach_cleanup rec es of (es', r) \<Rightarrow> (None # es', r))"
| "forEach_cleanup rec (Some i # es) =
     (if typeof_object i then
        (case rec i of
           (i', Some e) \<Rightarrow> (Some i' # es, Some e)
         | (i', None) \<Rightarrow> (case forEach_cleanup rec es of (es', r) \<Rightarrow> (Some i' # es', r)))
      else (case forEach_cleanup rec es of (es', r) \<Rightarrow> (Some i # es', r)))"

text \<open>The \<open>else\<close> branch of the loop body, for a value that is neither null nor undefined.\<close>

definition cleanup_value ::
  "(jsval \<Rightarrow> jsval \<times> error option) \<Rightarrow> jsval \<Rightarrow> jsval \<times> error option"
where
  "cleanup_value rec value =
     (case (case value of
              JArr es \<Rightarrow> (case forEach_cleanup rec es of (es', r) \<Rightarrow> (JArr es', r))
            | _ \<Rightarrow> (value, None)) of
        (value1, Some e) \<Rightarrow> (value1, Some e)
      | (value1, None) \<Rightarrow> if typeof_object value1 then rec value1 else (value1, None))"

text \<open>\<open>for (const key in message)\<close> over the properties of an object.\<close>

fun forIn_props ::
  "(jsval \<Rightarrow> jsval \<times> error option) \<Rightarrow> (string \<times> jsval) list
     \<Rightarrow> (string \<times> jsval) list \<times> error option"
where
  "forIn_props rec [] = ([], None)"
| "forIn_props rec ((key, value) # ps) =
     (if is_nullish value then forIn_props rec ps
      else
        (case cleanup_value rec value of
           (value', Some e) \<Rightarrow> ((key, value') # ps, Some e)
         | (value', None) \<Rightarrow>
             (case forIn_props rec ps of (ps', r) \<Rightarrow> ((key, value') # ps', r))))"

text \<open>The same loop over the index properties of an array; a deleted index is a hole.\<close>

fun forIn_elems ::
  "(jsval \<Rightarrow> jsval \<times> error option) \<Rightarrow> jsval option list \<Rightarrow> jsval option list \<times> error option"
where
  "forIn_elems rec [] = ([], None)"
| "forIn_elems rec (None # es) =
     (case forIn_elems rec es of (es', r) \<Rightarrow> (None # es', r))"
| "forIn_elems rec (Some value # es) =
     (if is_nullish value then
        (case forIn_elems rec es of (es', r) \<Rightarrow> (None # es', r))
      else
        (case cleanup_value rec value of
           (value', Some e) \<Rightarrow> (Some value' # es, Some e)
         | (value', None) \<Rightarrow>
             (case forIn_elems rec es of (es', r) \<Rightarrow> (Some value' # es', r))))"

definition hashKey :: string where
  "hashKey = ''$$hashKey''"

text \<open>
  The first argument is the number of nested calls the call stack still has room for;
  a recursion deeper than that ends in a stack overflow.
\<close>

fun cleanupInput :: "nat \<Rightarrow> jsval \<Rightarrow> jsval \<times> error option" where
  "cleanupInput 0 message = (message, Some StackOverflow)"
| "cleanupInput (Suc stack) message =
     (case message of
        JUndefined \<Rightarrow> (message, Some TypeError)
      | JNull \<Rightarrow> (message, Some TypeError)
      | JObj ps \<Rightarrow>
          (case forIn_props (cleanupInput stack) (filter (\<lambda>(key, value). key \<noteq> hashKey) ps) of
             (ps', r) \<Rightarrow> (JObj ps', r))
      | JArr es \<Rightarrow>
          (case forIn_elems (cleanupInput stack) es of (es', r) \<Rightarrow> (JArr es', r))
      | _ \<Rightarrow> (message, None))"

section \<open>Sending: building and framing a message\<close>

text \<open>
  The protobuf builder is an external collaborator: a built message offers its schema
  options (\<open>$type.options\<close>) and its serialisation (\<open>encodeAB()\<close>, which throws when
  the message cannot be serialised, or returns the payload); a builder is called
  with the data, or with no argument, and may throw.
\<close>

record pb_message =
  type_options :: "string \<rightharpoonup> jsval"
  encodeAB :: "error + byte list"

type_synonym builder = "jsval option \<Rightarrow> error + pb_message"

record Messages =
  messagesByName :: "string \<rightharpoonup> builder"
  messageTypes :: "string \<rightharpoonup> jsval"

record BuiltMessage =
  message :: pb_message
  type :: jsval

definition HEADER_SIZE :: nat where
  "HEADER_SIZE = 1 + 1 + 4 + 2"

definition BUFFER_SIZE :: nat where
  "BUFFER_SIZE = 63"

text \<open>Reading a property of an object: a missing key reads as \<open>undefined\<close>.\<close>

definition get_prop :: "(string \<rightharpoonup> jsval) \<Rightarrow> string \<Rightarrow> jsval" where
  "get_prop obj key = (case obj key of None \<Rightarrow> JUndefined | Some v \<Rightarrow> v)"

text \<open>
  The constructor. It returns the state of the caller's \<open>data\<close> object after the call
  together with the outcome: the error thrown, or the fields of the new instance.
\<close>

definition BuiltMessage_new ::
  "nat \<Rightarrow> Messages \<Rightarrow> string \<Rightarrow> jsval \<Rightarrow> jsval \<times> (error + BuiltMessage)"
where
  "BuiltMessage_new stack messages name data =
     (case messagesByName messages name of
        None \<Rightarrow> (data, Inl MessageNotFound)
      | Some Builder \<Rightarrow>
          (case cleanupInput stack data of
             (data', Some e) \<Rightarrow> (data', Inl e)
           | (data', None) \<Rightarrow>
               (case (if truthy data' then Builder (Some data') else Builder None) of
                  Inl e \<Rightarrow> (data', Inl e)
                | Inr msg \<Rightarrow>
                    (data',
                     Inr \<lparr>message = msg,
                          type =
                            (if typeof_number (get_prop (type_options msg) ''(wire_type)'')
                             then get_prop (type_options msg) ''(wire_type)''
                             else get_prop (messageTypes messages) (''MessageType_'' @ name))\<rparr>))))"

text \<open>
  Writing through the cursor. \<open>new ByteBuffer(capacity)\<close> is zero-filled. A write that
  does not fit grows the backing buffer first (to twice the capacity, or to what the
  write needs if that is more).
\<close>

definition ByteBuffer_new :: "nat \<Rightarrow> bytebuffer" where
  "ByteBuffer_new capacity = \<lparr>buffer = replicate capacity 0, offset = 0, limit = capacity\<rparr>"

definition write_bytes :: "byte list \<Rightarrow> bytebuffer \<Rightarrow> bytebuffer" where
  "write_bytes bs bb =
     (let end = offset bb + length bs;
          capacity = length (buffer bb);
          buf = (if end > capacity
                 then buffer bb @ replicate (max (capacity * 2) end - capacity) 0
                 else buffer bb)
      in bb\<lparr>buffer := take (offset bb) buf @ bs @ drop end buf, offset := end\<rparr>)"

definition writeByte :: "int \<Rightarrow> bytebuffer \<Rightarrow> bytebuffer" where
  "writeByte value bb = write_bytes [word_of_int value] bb"

text \<open>
  \<open>writeUint16\<close> and \<open>writeUint32\<close> reject a value that is not a number, and write the
  low 16 (32) bits of the number, most significant byte first.
\<close>

definition writeUint16 :: "jsval \<Rightarrow> bytebuffer \<Rightarrow> error + bytebuffer" where
  "writeUint16 value bb =
     (case value of
        JNum n \<Rightarrow> Inr (write_bytes [word_of_int (n div 256), word_of_int n] bb)
      | _ \<Rightarrow> Inl TypeError)"

definition writeUint32 :: "jsval \<Rightarrow> bytebuffer \<Rightarrow> error + bytebuffer" where
  "writeUint32 value bb =
     (case value of
        JNum n \<Rightarrow>
          Inr (write_bytes [word_of_int (n div 16777216), word_of_int (n div 65536),
                            word_of_int (n div 256), word_of_int n] bb)
      | _ \<Rightarrow> Inl TypeError)"

definition append :: "byte list \<Rightarrow> bytebuffer \<Rightarrow> bytebuffer" where
  "append source bb = (if source = [] then bb else write_bytes source bb)"

definition encodeLong :: "bool \<Rightarrow> BuiltMessage \<Rightarrow> error + byte list" where
  "encodeLong addTrezorHeaders this =
     (let headerSize = HEADER_SIZE in
      case encodeAB (message this) of Inl e \<Rightarrow> Inl e
      | Inr bytes \<Rightarrow>
     (let fullSize = (if addTrezorHeaders then headerSize else headerSize - 2) + length bytes;
          encodedByteBuffer = ByteBuffer_new fullSize;
          bb1 = (if addTrezorHeaders
                 then writeByte MESSAGE_HEADER_BYTE (writeByte MESSAGE_HEADER_BYTE encodedByteBuffer)
                 else encodedByteBuffer)
      in case writeUint16 (type this) bb1 of Inl e \<Rightarrow> Inl e
         | Inr bb2 \<Rightarrow>
        (case writeUint32 (JNum (int (length bytes))) bb2 of Inl e \<Rightarrow> Inl e
         | Inr bb3 \<Rightarrow> Inr (buffer (append bytes bb3)))))"

text \<open>
  \<open>bytes.subarray(begin, end)\<close> clamps both ends to the array; \<open>target.set(source)\<close>
  copies to the front of the target and throws when the source is longer.
\<close>

definition subarray :: "byte list \<Rightarrow> nat \<Rightarrow> nat \<Rightarrow> byte list" where
  "subarray bytes begin end = take (end - begin) (drop begin bytes)"

definition typed_set :: "byte list \<Rightarrow> byte list \<Rightarrow> error + byte list" where
  "typed_set target source =
     (if length source > length target then Inl RangeError
      else Inr (source @ drop (length source) target))"

text \<open>The \<open>for\<close> loop of \<open>encode\<close>, from counter \<open>i\<close> with the chunks collected so far.\<close>

function encode_loop ::
  "byte list \<Rightarrow> int \<Rightarrow> int \<Rightarrow> byte list list \<Rightarrow> error + byte list list"
where
  "encode_loop bytes count i result =
     (if i < count then
        (let size = BUFFER_SIZE;
             slice = subarray bytes (nat i * size) ((nat i + 1) * size)
         in case typed_set (replicate size 0) slice of
              Inl e \<Rightarrow> Inl e
            | Inr newArray \<Rightarrow> encode_loop bytes count (i + 1) (result @ [newArray]))
      else Inr result)"
  by pat_completeness auto
termination
  by (relation "measure (\<lambda>(bytes, count, i, result). nat (count - i))") auto

declare encode_loop.simps [simp del]

text \<open>The part of \<open>encode\<close> after the long encoding: the chunk count and the loop.\<close>

definition encode_chunks :: "byte list \<Rightarrow> error + byte list list" where
  "encode_chunks bytes =
     (let size = BUFFER_SIZE;
          count = (int (length bytes) - 1) div int size + 1
      in encode_loop bytes count 0 [])"

definition encode :: "BuiltMessage \<Rightarrow> error + byte list list" where
  "encode this =
     (case encodeLong True this of Inl e \<Rightarrow> Inl e | Inr bytes \<Rightarrow> encode_chunks bytes)"

definition encodeOne :: "BuiltMessage \<Rightarrow> error + byte list" where
  "encodeOne this = encodeLong False this"

definition buildBuffers ::
  "nat \<Rightarrow> Messages \<Rightarrow> string \<Rightarrow> jsval \<Rightarrow> jsval \<times> (error + byte list list)"
where
  "buildBuffers stack messages name data =
     (case BuiltMessage_new stack messages name data of
        (data', Inl e) \<Rightarrow> (data', Inl e)
      | (data', Inr msg) \<Rightarrow> (data', encode msg))"

definition buildOne ::
  "nat \<Rightarrow> Messages \<Rightarrow> string \<Rightarrow> jsval \<Rightarrow> jsval \<times> (error + byte list)"
where
  "buildOne stack messages name data =
     (case BuiltMessage_new stack messages name data of
        (data', Inl e) \<Rightarrow> (data', Inl e)
      | (data', Inr msg) \<Rightarrow> (data', encodeOne msg))"

section \<open>Sending: handing the chunks to the transport\<close>

text \<open>
  The transport's \<open>sender\<close> returns a promise. Awaiting it has one of three outcomes: the
  promise is fulfilled, it is rejected, or it never settles. A call of the sender acts on
  the state of the transport. The model of \<open>sendBuffers\<close> returns the outcome of its own
  promise, the final state of the transport, and the buffers it has passed to the sender,
  in the order of the calls.
\<close>

datatype settled = Fulfilled | Rejected error | Pending

type_synonym 's sender = "byte list \<Rightarrow> 's \<Rightarrow> settled \<times> 's"

fun sendBuffers ::
  "'s sender \<Rightarrow> byte list list \<Rightarrow> 's \<Rightarrow> byte list list \<Rightarrow> settled \<times> 's \<times> byte list list"
where
  "sendBuffers sender [] s sent = (Fulfilled, s, sent)"
| "sendBuffers sender (buf # buffers) s sent =
     (case sender buf s of
        (Fulfilled, s') \<Rightarrow> sendBuffers sender buffers s' (sent @ [buf])
      | (Rejected e, s') \<Rightarrow> (Rejected e, s', sent @ [buf])
      | (Pending, s') \<Rightarrow> (Pending, s', sent @ [buf]))"

definition buildAndSend ::
  "nat \<Rightarrow> Messages \<Rightarrow> 's sender \<Rightarrow> string \<Rightarrow> jsval \<Rightarrow> 's
     \<Rightarrow> jsval \<times> settled \<times> 's \<times> byte list list"
where
  "buildAndSend stack messages sender name data s =
     (case buildBuffers stack messages name data of
        (data', Inl e) \<Rightarrow> (data', Rejected e, s, [])
      | (data', Inr buffers) \<Rightarrow> (data', sendBuffers sender buffers s []))"

section \<open>Notions used in the statements\<close>

text \<open>The value of a byte sequence read as a big-endian unsigned number.\<close>

definition be_value :: "byte list \<Rightarrow> int" where
  "be_value bs = foldl (\<lambda>acc b. acc * 256 + uint b) 0 bs"

text \<open>
  What chunk \<open>i\<close> of a byte sequence must be: the slice \<open>[63 i, 63 (i + 1))\<close> of the bytes,
  clamped to their end, then zeros up to 63 bytes.
\<close>

definition chunk_at :: "byte list \<Rightarrow> nat \<Rightarrow> byte list" where
  "chunk_at bytes i =
     subarray bytes (i * 63) ((i + 1) * 63)
       @ replicate (63 - length (subarray bytes (i * 63) ((i + 1) * 63))) 0"

text \<open>
  A cleaned value: no object in it, at any depth through objects and arrays, has the key
  \<open>$$hashKey\<close> or a property whose value is null or undefined, and no array in it has a
  null or undefined element.
\<close>

fun clean :: "jsval \<Rightarrow> bool"
  and clean_props :: "(string \<times> jsval) list \<Rightarrow> bool"
  and clean_elems :: "jsval option list \<Rightarrow> bool"
where
  "clean (JObj ps) = clean_props ps"
| "clean (JArr es) = clean_elems es"
| "clean JUndefined = True"
| "clean JNull = True"
| "clean (JBool b) = True"
| "clean (JNum n) = True"
| "clean (JStr s) = True"
| "clean_props [] = True"
| "clean_props ((key, value) # ps) =
     (key \<noteq> hashKey \<and> \<not> is_nullish value \<and> clean value \<and> clean_props ps)"
| "clean_elems [] = True"
| "clean_elems (None # es) = clean_elems es"
| "clean_elems (Some value # es) = (\<not> is_nullish value \<and> clean value \<and> clean_elems es)"

text \<open>The nesting depth of a value: the number of nested calls its cleanup needs, less one.\<close>

fun depth :: "jsval \<Rightarrow> nat"
  and depth_props :: "(string \<times> jsval) list \<Rightarrow> nat"
  and depth_elems :: "jsval option list \<Rightarrow> nat"
where
  "depth (JObj ps) = Suc (depth_props ps)"
| "depth (JArr es) = Suc (depth_elems es)"
| "depth JUndefined = 0"
| "depth JNull = 0"
| "depth (JBool b) = 0"
| "depth (JNum n) = 0"
| "depth (JStr s) = 0"
| "depth_props [] = 0"
| "depth_props ((key, value) # ps) = max (depth value) (depth_props ps)"
| "depth_elems [] = 0"
| "depth_elems (None # es) = depth_elems es"
| "depth_elems (Some value # es) = max (depth value) (depth_elems es)"

text \<open>Invariants of the recursive call, for the proofs about \<open>cleanupInput\<close>.\<close>

definition good_rec :: "(jsval \<Rightarrow> jsval \<times> error option) \<Rightarrow> bool" where
  "good_rec rec = (\<forall>v v'. rec v = (v', None) \<longrightarrow> clean v' \<and> \<not> is_nullish v')"

definition keep_rec :: "(jsval \<Rightarrow> jsval \<times> error option) \<Rightarrow> bool" where
  "keep_rec rec = (\<forall>v v'. clean v \<longrightarrow> rec v = (v', None) \<longrightarrow> v' = v)"

definition shrinking :: "(jsval \<Rightarrow> jsval \<times> error option) \<Rightarrow> bool" where
  "shrinking rec = (\<forall>v v' r. rec v = (v', r) \<longrightarrow> depth v' \<le> depth v)"

definition enough_stack :: "(jsval \<Rightarrow> jsval \<times> error option) \<Rightarrow> nat \<Rightarrow> bool" where
  "enough_stack rec n = (\<forall>v. depth v < n \<longrightarrow> snd (rec v) \<noteq> Some StackOverflow)"

text \<open>
  When the cleanup of a value returns normally, given enough stack. \<open>completes\<close> is for a
  call of \<open>cleanupInput\<close>: it throws on null and undefined, and visits every property that
  is left after \<open>$$hashKey\<close> was deleted and whose value is neither null nor undefined.
  \<open>completes_value\<close> is for the loop body on such a value: on an array, the \<open>forEach\<close>
  passes every element of type \<open>`object`\<close>, null included, to \<open>cleanupInput\<close>
  (\<open>completes_each\<close>); the call on the array after that always returns.
\<close>

fun completes :: "jsval \<Rightarrow> bool"
  and completes_value :: "jsval \<Rightarrow> bool"
  and completes_props :: "(string \<times> jsval) list \<Rightarrow> bool"
  and completes_elems :: "jsval option list \<Rightarrow> bool"
  and completes_each :: "jsval option list \<Rightarrow> bool"
where
  "completes (JObj ps) = completes_props ps"
| "completes (JArr es) = completes_elems es"
| "completes JUndefined = False"
| "completes JNull = False"
| "completes (JBool b) = True"
| "completes (JNum n) = True"
| "completes (JStr s) = True"
| "completes_value (JArr es) = completes_each es"
| "completes_value (JObj ps) = completes_props ps"
| "completes_value JUndefined = True"
| "completes_value JNull = True"
| "completes_value (JBool b) = True"
| "completes_value (JNum n) = True"
| "completes_value (JStr s) = True"
| "completes_props [] = True"
| "completes_props ((key, value) # ps) =
     ((key = hashKey \<or> is_nullish value \<or> completes_value value) \<and> completes_props ps)"
| "completes_elems [] = True"
| "completes_elems (None # es) = completes_elems es"
| "completes_elems (Some value # es) =
     ((is_nullish value \<or> completes_value value) \<and> completes_elems es)"
| "completes_each [] = True"
| "completes_each (None # es) = completes_each es"
| "completes_each (Some i # es) = ((typeof_object i \<longrightarrow> completes i) \<and> completes_each es)"

definition exact_rec :: "(jsval \<Rightarrow> jsval \<times> error option) \<Rightarrow> nat \<Rightarrow> bool" where
  "exact_rec rec n = (\<forall>v. depth v < n \<longrightarrow> (snd (rec v) = None) = completes v)"

text \<open>
  The state of the transport after the sends of a list of buffers have completed, and the
  outcome of the send of buffer \<open>i\<close> when all sends before it have completed.
\<close>

definition state_after :: "'s sender \<Rightarrow> byte list list \<Rightarrow> 's \<Rightarrow> 's" where
  "state_after sender bufs s = foldl (\<lambda>s b. snd (sender b s)) s bufs"

definition send_outcome :: "'s sender \<Rightarrow> byte list list \<Rightarrow> 's \<Rightarrow> nat \<Rightarrow> settled" where
  "send_outcome sender bufs s i = fst (sender (bufs ! i) (state_after sender (take i bufs) s))"

section \<open>Properties of the header parsers\<close>

lemma readHeaderChunked_short:
  "length bytes < 8 \<Longrightarrow> readHeaderChunked (wrap bytes) = Inl RangeError"
  by (auto simp: readHeaderChunked_def readByte_def readUint16_def readUint32_def wrap_def
           split: sum.splits prod.splits if_splits)

lemma readHeaderChunked_long:
  "8 \<le> length bytes \<Longrightarrow> readHeaderChunked (wrap bytes) =
     Inr (\<lparr>typeId = uint (bytes ! 2) * 256 + uint (bytes ! 3),
           length_field = uint (bytes ! 4) * 16777216 + uint (bytes ! 5) * 65536
                          + uint (bytes ! 6) * 256 + uint (bytes ! 7),
           sharp1 = sint (bytes ! 0), sharp2 = sint (bytes ! 1)\<rparr>,
          \<lparr>buffer = bytes, offset = 8, limit = length bytes\<rparr>)"
  by (auto simp: readHeaderChunked_def readByte_def readUint16_def readUint32_def wrap_def)
     (simp_all add: eval_nat_numeral)

lemma sint_byte_eq_0x23: "(sint (b::byte) = 0x23) = (b = 0x23)"
proof
  assume "sint b = 0x23"
  then have "word_of_int (sint b) = (word_of_int 0x23 :: byte)" by simp
  then show "b = 0x23" by simp
next
  assume "b = 0x23"
  then show "sint b = 0x23" by simp
qed

lemma readHeader_short:
  "length bytes < 6 \<Longrightarrow> readHeader (concat_one bytes) = Inl RangeError"
  by (auto simp: readHeader_def readUint16_def readUint32_def concat_one_def
           split: sum.splits prod.splits if_splits)

lemma readHeader_long:
  "6 \<le> length bytes \<Longrightarrow> readHeader (concat_one bytes) =
     Inr (\<lparr>typeId = uint (bytes ! 0) * 256 + uint (bytes ! 1),
           length_field = uint (bytes ! 2) * 16777216 + uint (bytes ! 3) * 65536
                          + uint (bytes ! 4) * 256 + uint (bytes ! 5)\<rparr>,
          \<lparr>buffer = bytes, offset = 6, limit = length bytes\<rparr>)"
  by (auto simp: readHeader_def readUint16_def readUint32_def concat_one_def)
     (simp_all add: eval_nat_numeral)

lemma decode_short: "length data < 6 \<Longrightarrow> decode data = Inl RangeError"
  by (simp add: decode_def readHeader_short)

text \<open>
  Claim C3. On an input that carries a whole stream header (8 bytes or more),
  \<open>decodeChunked\<close> fails with the header-signature error, and so returns no result,
  whenever byte 0 or byte 1 differs from \<open>0x23\<close>, whatever the type and length bytes are.
\<close>

theorem decodeChunked_wrong_sentinel:
  assumes "8 \<le> length bytes"
    and "bytes ! 0 \<noteq> 0x23 \<or> bytes ! 1 \<noteq> 0x23"
  shows "decodeChunked bytes = Inl HeaderSignatureError"
  using assms
  by (auto simp: decodeChunked_def readHeaderChunked_long MESSAGE_HEADER_BYTE_def
                 sint_byte_eq_0x23)

theorem decodeChunked_wrong_sentinel_witness:
  "8 \<le> length [0x23, 0x24, 0x00, 0x01, 0x00, 0x00, 0x00, 0x05 :: byte]
   \<and> [0x23, 0x24, 0x00, 0x01, 0x00, 0x00, 0x00, 0x05 :: byte] ! 1 \<noteq> 0x23
   \<and> decodeChunked [0x23, 0x24, 0x00, 0x01, 0x00, 0x00, 0x00, 0x05] = Inl HeaderSignatureError"
  using decodeChunked_wrong_sentinel [of "[0x23, 0x24, 0x00, 0x01, 0x00, 0x00, 0x00, 0x05]"]
  by simp

text \<open>
  Claim C4, as stated, fails: \<open>decode\<close> does not return the input buffer with its header.
  \<open>readHeader\<close> advances the cursor past the 6 header bytes and \<open>toBuffer()\<close> returns the
  bytes from the cursor on. On the 7-byte input below the returned buffer is the single
  payload byte.
\<close>

theorem decode_full_buffer_counterexample:
  "decode [0x00, 0x01, 0x00, 0x00, 0x00, 0x01, 0xAA]
     = Inr \<lparr>decoded_typeId = 1, decoded_buffer = [0xAA]\<rparr>
   \<and> decode [0x00, 0x01, 0x00, 0x00, 0x00, 0x01, 0xAA]
     \<noteq> Inr \<lparr>decoded_typeId = 1,
            decoded_buffer = [0x00, 0x01, 0x00, 0x00, 0x00, 0x01, 0xAA]\<rparr>"
  by (simp add: decode_def readHeader_long toBuffer_def)

text \<open>
  Claim C4, amended. For every input buffer of at least 6 bytes, \<open>decode\<close> returns the
  type id read big-endian from the first two bytes, together with the bytes that follow
  the 6-byte header (the payload slice), not the whole input.
\<close>

theorem decode_returns_payload:
  assumes "6 \<le> length data"
  shows "decode data =
           Inr \<lparr>decoded_typeId = uint (data ! 0) * 256 + uint (data ! 1),
                decoded_buffer = drop 6 data\<rparr>"
  using assms by (simp add: decode_def readHeader_long toBuffer_def)

theorem decode_returns_payload_witness:
  "6 \<le> length [0x01, 0x02, 0x00, 0x00, 0x00, 0x02, 0xAA, 0xBB :: byte]
   \<and> decode [0x01, 0x02, 0x00, 0x00, 0x00, 0x02, 0xAA, 0xBB]
       = Inr \<lparr>decoded_typeId = 258, decoded_buffer = [0xAA, 0xBB]\<rparr>"
  using decode_returns_payload [of "[0x01, 0x02, 0x00, 0x00, 0x00, 0x02, 0xAA, 0xBB]"]
  by simp

text \<open>
  Claim C7. For every input of at least 8 bytes whose first two bytes are both \<open>0x23\<close>,
  \<open>decodeChunked\<close> succeeds with the type id read big-endian from bytes 2-3, the length
  read big-endian from bytes 4-7, and the cursor \<open>restBuffer\<close> over the same bytes at
  offset 8.
\<close>

theorem decodeChunked_ok:
  assumes "8 \<le> length bytes"
    and "bytes ! 0 = 0x23"
    and "bytes ! 1 = 0x23"
  shows "decodeChunked bytes =
           Inr \<lparr>chunked_length = uint (bytes ! 4) * 16777216 + uint (bytes ! 5) * 65536
                                  + uint (bytes ! 6) * 256 + uint (bytes ! 7),
                chunked_typeId = uint (bytes ! 2) * 256 + uint (bytes ! 3),
                restBuffer = \<lparr>buffer = bytes, offset = 8, limit = length bytes\<rparr>\<rparr>"
  using assms
  by (simp add: decodeChunked_def readHeaderChunked_long MESSAGE_HEADER_BYTE_def)

theorem decodeChunked_ok_witness:
  "8 \<le> length [0x23, 0x23, 0x00, 0x02, 0x00, 0x00, 0x01, 0x00, 0x07 :: byte]
   \<and> decodeChunked [0x23, 0x23, 0x00, 0x02, 0x00, 0x00, 0x01, 0x00, 0x07]
       = Inr \<lparr>chunked_length = 256, chunked_typeId = 2,
              restBuffer = \<lparr>buffer = [0x23, 0x23, 0x00, 0x02, 0x00, 0x00, 0x01, 0x00, 0x07],
                            offset = 8, limit = 9\<rparr>\<rparr>"
  using decodeChunked_ok [of "[0x23, 0x23, 0x00, 0x02, 0x00, 0x00, 0x01, 0x00, 0x07]"]
  by simp

text \<open>
  Claim C9. For every input shorter than 8 bytes, \<open>decodeChunked\<close> fails with the read
  underflow error of the buffer, never with the header-signature error, whatever the
  bytes present are: the signature is checked only after all 8 header bytes were read.
\<close>

theorem decodeChunked_short_underflow:
  assumes "length bytes < 8"
  shows "decodeChunked bytes = Inl RangeError
         \<and> decodeChunked bytes \<noteq> Inl HeaderSignatureError"
  using assms by (simp add: decodeChunked_def readHeaderChunked_short)

theorem decodeChunked_short_underflow_witness:
  "length [0x24, 0x24, 0x00 :: byte] < 8
   \<and> decodeChunked [0x24, 0x24, 0x00] = Inl RangeError
   \<and> decodeChunked [0x24, 0x24, 0x00] \<noteq> Inl HeaderSignatureError"
  using decodeChunked_short_underflow [of "[0x24, 0x24, 0x00]"]
  by simp

section \<open>Properties of the encoder\<close>

lemma uint_byte_of_int: "uint (word_of_int k :: byte) = k mod 256"
  by (simp add: uint_word_of_int_eq take_bit_eq_mod)

lemma uint_byte_of_nat: "uint (word_of_nat n :: byte) = int n mod 256"
  by (simp add: uint_nat unat_of_nat zmod_int)

lemma be16_split: "(n div 256 mod 256) * 256 + n mod 256 = n mod 65536" for n :: int
proof -
  have "n mod (256 * 256) = 256 * (n div 256 mod 256) + n mod 256"
    by (rule zmod_zmult2_eq) simp
  then show ?thesis by simp
qed

lemma be32_split:
  "(n div 16777216 mod 256) * 16777216 + (n div 65536 mod 256) * 65536
     + (n div 256 mod 256) * 256 + n mod 256 = n mod 4294967296" for n :: int
proof -
  have a: "n mod (65536 * 65536) = 65536 * (n div 65536 mod 65536) + n mod 65536"
    by (rule zmod_zmult2_eq) simp
  have b: "n mod (256 * 256) = 256 * (n div 256 mod 256) + n mod 256"
    by (rule zmod_zmult2_eq) simp
  have c: "(n div 65536) mod (256 * 256) = 256 * (n div 65536 div 256 mod 256) + n div 65536 mod 256"
    by (rule zmod_zmult2_eq) simp
  have d: "n div 65536 div 256 = n div (65536 * 256)"
    by (rule zdiv_zmult2_eq [symmetric]) simp
  have a': "n mod 4294967296 = 65536 * (n div 65536 mod 65536) + n mod 65536"
    using a by simp
  have b': "n mod 65536 = 256 * (n div 256 mod 256) + n mod 256"
    using b by simp
  have c': "n div 65536 mod 65536 = 256 * (n div 16777216 mod 256) + n div 65536 mod 256"
    using c d by simp
  show ?thesis
    unfolding a' b' c' by simp
qed

lemma be_value_u16: "be_value [word_of_int (n div 256), word_of_int n] = n mod 65536"
proof -
  have "be_value [word_of_int (n div 256), word_of_int n]
          = (n div 256 mod 256) * 256 + n mod 256"
    by (simp add: be_value_def uint_byte_of_int)
  then show ?thesis by (simp only: be16_split)
qed

lemma be_value_u32:
  "be_value [word_of_int (n div 16777216), word_of_int (n div 65536),
             word_of_int (n div 256), word_of_int n] = n mod 4294967296"
proof -
  have "be_value [word_of_int (n div 16777216), word_of_int (n div 65536),
             word_of_int (n div 256), word_of_int n]
          = (n div 16777216 mod 256) * 16777216 + (n div 65536 mod 256) * 65536
            + (n div 256 mod 256) * 256 + n mod 256"
    by (simp add: be_value_def uint_byte_of_int)
  then show ?thesis by (simp only: be32_split)
qed

lemma write_bytes_fits:
  "length bs \<le> n \<Longrightarrow>
   write_bytes bs \<lparr>buffer = pre @ replicate n 0, offset = length pre, limit = l\<rparr>
     = \<lparr>buffer = (pre @ bs) @ replicate (n - length bs) 0, offset = length (pre @ bs), limit = l\<rparr>"
  by (simp add: write_bytes_def Let_def)

lemma append_write:
  "offset bb \<le> length (buffer bb) \<Longrightarrow> append source bb = write_bytes source bb"
  by (simp add: append_def write_bytes_def Let_def)

lemma encodeLong_bytes:
  assumes "encodeAB m = Inr p"
  shows "encodeLong addTrezorHeaders \<lparr>message = m, type = JNum t\<rparr> =
     Inr ((if addTrezorHeaders then [0x23, 0x23] else [])
          @ [word_of_int (t div 256), word_of_int t]
          @ [word_of_int (int (length p) div 16777216),
             word_of_int (int (length p) div 65536),
             word_of_int (int (length p) div 256),
             word_of_int (int (length p))]
          @ p)"
proof -
  let ?p = "p"
  let ?L = "length ?p"
  let ?tb = "[word_of_int (t div 256), word_of_int t] :: byte list"
  let ?lb = "[word_of_int (int ?L div 16777216), word_of_int (int ?L div 65536),
              word_of_int (int ?L div 256), word_of_int (int ?L)] :: byte list"
  have w: "\<And>bs pre n l. length bs \<le> n \<Longrightarrow>
       write_bytes bs \<lparr>buffer = pre @ replicate n 0, offset = length pre, limit = l\<rparr>
     = \<lparr>buffer = (pre @ bs) @ replicate (n - length bs) 0, offset = length (pre @ bs), limit = l\<rparr>"
    by (rule write_bytes_fits)
  show ?thesis
  proof (cases addTrezorHeaders)
    case True
    have s0: "ByteBuffer_new (8 + ?L) = \<lparr>buffer = [] @ replicate (8 + ?L) 0, offset = length ([]::byte list), limit = 8 + ?L\<rparr>"
      by (simp add: ByteBuffer_new_def)
    have s1: "writeByte 0x23 (ByteBuffer_new (8 + ?L))
        = \<lparr>buffer = [0x23] @ replicate (7 + ?L) 0, offset = length [0x23::byte], limit = 8 + ?L\<rparr>"
      unfolding writeByte_def s0 by (subst w) simp_all
    have s2: "writeByte 0x23 (writeByte 0x23 (ByteBuffer_new (8 + ?L)))
        = \<lparr>buffer = [0x23, 0x23] @ replicate (6 + ?L) 0, offset = length [0x23, 0x23::byte], limit = 8 + ?L\<rparr>"
      unfolding s1 unfolding writeByte_def by (subst w) simp_all
    have s3: "write_bytes ?tb (writeByte 0x23 (writeByte 0x23 (ByteBuffer_new (8 + ?L))))
        = \<lparr>buffer = ([0x23, 0x23] @ ?tb) @ replicate (4 + ?L) 0, offset = length ([0x23, 0x23] @ ?tb), limit = 8 + ?L\<rparr>"
      unfolding s2 by (subst w) simp_all
    have s4: "write_bytes ?lb (write_bytes ?tb (writeByte 0x23 (writeByte 0x23 (ByteBuffer_new (8 + ?L)))))
        = \<lparr>buffer = ([0x23, 0x23] @ ?tb @ ?lb) @ replicate ?L 0, offset = length ([0x23, 0x23] @ ?tb @ ?lb), limit = 8 + ?L\<rparr>"
      unfolding s3 by (subst w) simp_all
    have s5: "buffer (append ?p (write_bytes ?lb (write_bytes ?tb (writeByte 0x23 (writeByte 0x23 (ByteBuffer_new (8 + ?L)))))))
        = [0x23, 0x23] @ ?tb @ ?lb @ ?p"
      unfolding s4 by (subst append_write, simp, subst w, simp_all)
    show ?thesis
      using True s5 assms
      by (simp add: encodeLong_def Let_def HEADER_SIZE_def MESSAGE_HEADER_BYTE_def
                    writeUint16_def writeUint32_def)
  next
    case False
    have s0: "ByteBuffer_new (6 + ?L) = \<lparr>buffer = [] @ replicate (6 + ?L) 0, offset = length ([]::byte list), limit = 6 + ?L\<rparr>"
      by (simp add: ByteBuffer_new_def)
    have s3: "write_bytes ?tb (ByteBuffer_new (6 + ?L))
        = \<lparr>buffer = ?tb @ replicate (4 + ?L) 0, offset = length ?tb, limit = 6 + ?L\<rparr>"
      unfolding s0 by (subst w) simp_all
    have s4: "write_bytes ?lb (write_bytes ?tb (ByteBuffer_new (6 + ?L)))
        = \<lparr>buffer = (?tb @ ?lb) @ replicate ?L 0, offset = length (?tb @ ?lb), limit = 6 + ?L\<rparr>"
      unfolding s3 by (subst w) simp_all
    have s5: "buffer (append ?p (write_bytes ?lb (write_bytes ?tb (ByteBuffer_new (6 + ?L)))))
        = ?tb @ ?lb @ ?p"
      unfolding s4 by (subst append_write, simp, subst w, simp_all)
    show ?thesis
      using False s5 assms
      by (simp add: encodeLong_def Let_def HEADER_SIZE_def MESSAGE_HEADER_BYTE_def
                    writeUint16_def writeUint32_def)
  qed
qed

lemma wrap_concat_one: "wrap bytes = concat_one bytes"
  by (simp add: wrap_def concat_one_def)

lemma encodeLong_serialisation_error:
  "encodeAB (message this) = Inl e \<Longrightarrow> encodeLong addTrezorHeaders this = Inl e"
  by (simp add: encodeLong_def Let_def)

lemma encodeLong_undefined_type:
  "encodeAB (message this) = Inr payload \<Longrightarrow> type this = JUndefined
     \<Longrightarrow> encodeLong addTrezorHeaders this = Inl TypeError"
  by (simp add: encodeLong_def Let_def writeUint16_def)

text \<open>
  Claim C5. For a numeric type id \<open>t\<close> and any payload (the bytes that \<open>encodeAB()\<close>
  returned), \<open>_encodeLong\<close> returns a buffer of exactly \<open>headerSize + payload.length\<close> bytes
  (header size 8 with the sentinel, 6 without) holding, in order: the two \<open>0x23\<close> bytes
  (only if requested), two bytes that are \<open>t\<close> as a big-endian unsigned 16-bit value, four
  bytes that are the length of the payload as a big-endian unsigned 32-bit value, and the
  payload unchanged. The length is taken from the payload itself; the field equals it
  whenever it fits 32 bits, and the type field equals \<open>t\<close> whenever \<open>t\<close> fits 16 bits.
\<close>

theorem encodeLong_layout:
  assumes "type this = JNum t"
    and "encodeAB (message this) = Inr payload"
  shows "\<exists>bytes hdr.
           encodeLong addTrezorHeaders this = Inr bytes
         \<and> length bytes = (if addTrezorHeaders then 8 else 6) + length payload
         \<and> bytes = (if addTrezorHeaders then [0x23, 0x23] else []) @ hdr @ payload
         \<and> length hdr = 6
         \<and> be_value (take 2 hdr) = t mod 65536
         \<and> be_value (drop 2 hdr) = int (length payload) mod 4294967296
         \<and> (0 \<le> t \<and> t < 65536 \<longrightarrow> be_value (take 2 hdr) = t)
         \<and> (length payload < 4294967296
              \<longrightarrow> be_value (drop 2 hdr) = int (length payload))"
proof -
  let ?p = "payload"
  let ?n = "int (length ?p)"
  let ?tb = "[word_of_int (t div 256), word_of_int t] :: byte list"
  let ?lb = "[word_of_int (?n div 16777216), word_of_int (?n div 65536),
              word_of_int (?n div 256), word_of_int ?n] :: byte list"
  let ?bytes = "(if addTrezorHeaders then [0x23, 0x23] else []) @ (?tb @ ?lb) @ ?p"
  have this_eq: "this = \<lparr>message = message this, type = JNum t\<rparr>"
    using assms(1) by simp
  have enc: "encodeLong addTrezorHeaders this = Inr ?bytes"
    by (subst this_eq) (simp add: encodeLong_bytes [OF assms(2)])
  have len: "length ?bytes = (if addTrezorHeaders then 8 else 6) + length ?p"
    by simp
  have t16: "be_value (take 2 (?tb @ ?lb)) = t mod 65536"
    using be_value_u16 [of t] by simp
  have l32: "be_value (drop 2 (?tb @ ?lb)) = ?n mod 4294967296"
    using be_value_u32 [of ?n] by simp
  have t_in: "0 \<le> t \<and> t < 65536 \<longrightarrow> be_value (take 2 (?tb @ ?lb)) = t"
    unfolding t16 by simp
  have l_in: "length ?p < 4294967296 \<longrightarrow> be_value (drop 2 (?tb @ ?lb)) = ?n"
    unfolding l32 by simp
  have "length (?tb @ ?lb) = 6" by simp
  with enc len t16 l32 t_in l_in show ?thesis by blast
qed

theorem encodeLong_layout_witness:
  "type \<lparr>message = \<lparr>type_options = Map.empty, encodeAB = Inr (replicate 100 0xAA)\<rparr>,
         type = JNum 2\<rparr> = JNum 2
   \<and> encodeAB (message \<lparr>message = \<lparr>type_options = Map.empty,
                                     encodeAB = Inr (replicate 100 0xAA)\<rparr>,
                          type = JNum 2\<rparr>) = Inr (replicate 100 0xAA)
   \<and> (\<exists>bytes hdr.
        encodeLong True \<lparr>message = \<lparr>type_options = Map.empty,
                                     encodeAB = Inr (replicate 100 0xAA)\<rparr>,
                         type = JNum 2\<rparr> = Inr bytes
      \<and> length bytes = 108
      \<and> bytes = [0x23, 0x23] @ hdr @ replicate 100 0xAA
      \<and> length hdr = 6
      \<and> be_value (take 2 hdr) = 2
      \<and> be_value (drop 2 hdr) = 100)"
  using encodeLong_layout
    [of "\<lparr>message = \<lparr>type_options = Map.empty, encodeAB = Inr (replicate 100 0xAA)\<rparr>,
          type = JNum 2\<rparr>" 2 "replicate 100 0xAA" True]
  by simp blast

text \<open>
  Claim C1. For every type id in \<open>[0, 65535]\<close> and every payload (the empty one
  included) whose length fits the 32-bit length field, reading the bare header of the
  short-form encoding (\<open>encodeOne\<close>, that is \<open>_encodeLong(false)\<close>) yields exactly that type
  id and the length of the payload, leaves the cursor at offset 6, and the bytes after
  the 6-byte header are the payload; \<open>decode\<close> on that buffer returns the type id and the
  payload.
\<close>

theorem encodeOne_roundtrip:
  assumes "type this = JNum t"
    and "0 \<le> t" and "t \<le> 65535"
    and "encodeAB (message this) = Inr payload"
    and "length payload < 4294967296"
  shows "\<exists>bytes.
           encodeOne this = Inr bytes
         \<and> encodeLong False this = Inr bytes
         \<and> readHeader (wrap bytes)
             = Inr (\<lparr>typeId = t, length_field = int (length payload)\<rparr>,
                    \<lparr>buffer = bytes, offset = 6, limit = length bytes\<rparr>)
         \<and> drop 6 bytes = payload
         \<and> decode bytes = Inr \<lparr>decoded_typeId = t, decoded_buffer = payload\<rparr>"
proof -
  let ?p = "payload"
  let ?n = "int (length ?p)"
  let ?bytes = "[word_of_int (t div 256), word_of_int t]
                @ [word_of_int (?n div 16777216), word_of_int (?n div 65536),
                   word_of_int (?n div 256), word_of_int ?n] @ ?p :: byte list"
  have this_eq: "this = \<lparr>message = message this, type = JNum t\<rparr>"
    using assms(1) by simp
  have enc: "encodeLong False this = Inr ?bytes"
    by (subst this_eq) (simp add: encodeLong_bytes [OF assms(4)])
  have six: "6 \<le> length ?bytes" by simp
  have t_eq: "uint (?bytes ! 0) * 256 + uint (?bytes ! 1) = t"
  proof -
    have "uint (?bytes ! 0) * 256 + uint (?bytes ! 1) = (t div 256 mod 256) * 256 + t mod 256"
      by (simp add: uint_byte_of_int)
    also have "\<dots> = t mod 65536" by (rule be16_split)
    also have "\<dots> = t" using assms(2,3) by simp
    finally show ?thesis .
  qed
  have l_eq: "uint (?bytes ! 2) * 16777216 + uint (?bytes ! 3) * 65536
                + uint (?bytes ! 4) * 256 + uint (?bytes ! 5) = ?n"
  proof -
    have "uint (?bytes ! 2) * 16777216 + uint (?bytes ! 3) * 65536
            + uint (?bytes ! 4) * 256 + uint (?bytes ! 5)
          = (?n div 16777216 mod 256) * 16777216 + (?n div 65536 mod 256) * 65536
            + (?n div 256 mod 256) * 256 + ?n mod 256"
      by (simp add: uint_byte_of_int uint_byte_of_nat)
    also have "\<dots> = ?n mod 4294967296" by (rule be32_split)
    also have "\<dots> = ?n" using assms(5) by simp
    finally show ?thesis .
  qed
  have rh: "readHeader (wrap ?bytes)
              = Inr (\<lparr>typeId = t, length_field = ?n\<rparr>,
                     \<lparr>buffer = ?bytes, offset = 6, limit = length ?bytes\<rparr>)"
    unfolding wrap_concat_one readHeader_long [OF six] t_eq l_eq ..
  have dr: "drop 6 ?bytes = ?p" by simp
  have dec: "decode ?bytes = Inr \<lparr>decoded_typeId = t, decoded_buffer = ?p\<rparr>"
    using rh dr by (simp add: decode_def wrap_concat_one toBuffer_def)
  from enc rh dr dec show ?thesis
    unfolding encodeOne_def by blast
qed

theorem encodeOne_roundtrip_witness:
  "type \<lparr>message = \<lparr>type_options = Map.empty, encodeAB = Inr []\<rparr>, type = JNum 65535\<rparr>
     = JNum 65535
   \<and> (0::int) \<le> 65535 \<and> (65535::int) \<le> 65535
   \<and> encodeAB (message
        \<lparr>message = \<lparr>type_options = Map.empty, encodeAB = Inr []\<rparr>, type = JNum 65535\<rparr>)
       = Inr []
   \<and> length ([] :: byte list) < 4294967296
   \<and> (\<exists>bytes.
         encodeOne \<lparr>message = \<lparr>type_options = Map.empty, encodeAB = Inr []\<rparr>,
                    type = JNum 65535\<rparr>
           = Inr bytes
       \<and> readHeader (wrap bytes)
           = Inr (\<lparr>typeId = 65535, length_field = 0\<rparr>,
                  \<lparr>buffer = bytes, offset = 6, limit = length bytes\<rparr>)
       \<and> drop 6 bytes = [])"
  using encodeOne_roundtrip
    [of "\<lparr>message = \<lparr>type_options = Map.empty, encodeAB = Inr []\<rparr>, type = JNum 65535\<rparr>"
        65535 "[]"]
  by auto

section \<open>Properties of the chunk splitter\<close>

lemma subarray_chunk [simp]: "subarray bytes (i * 63) (63 + i * 63) = take 63 (drop (i * 63) bytes)"
  by (simp add: subarray_def)

lemma typed_set_slice:
  "typed_set (replicate BUFFER_SIZE 0)
     (subarray bytes (i * BUFFER_SIZE) ((i + 1) * BUFFER_SIZE)) = Inr (chunk_at bytes i)"
  by (simp add: typed_set_def chunk_at_def BUFFER_SIZE_def)

lemma length_chunk_at: "length (chunk_at bytes i) = 63"
  by (simp add: chunk_at_def)

lemma encode_loop_map:
  "0 \<le> i \<Longrightarrow>
   encode_loop bytes count i result = Inr (result @ map (chunk_at bytes) [nat i ..< nat count])"
proof (induction bytes count i result rule: encode_loop.induct)
  case (1 bytes count i result)
  show ?case
  proof (cases "i < count")
    case True
    with "1.prems" have lt: "nat i < nat count" by simp
    have next_i: "nat (i + 1) = Suc (nat i)" using "1.prems" by simp
    have ih: "encode_loop bytes count (i + 1) (result @ [chunk_at bytes (nat i)])
              = Inr ((result @ [chunk_at bytes (nat i)])
                     @ map (chunk_at bytes) [nat (i + 1) ..< nat count])"
      using "1.IH" [OF True refl refl typed_set_slice] "1.prems" by simp
    have "encode_loop bytes count i result
          = encode_loop bytes count (i + 1) (result @ [chunk_at bytes (nat i)])"
      using True typed_set_slice [of bytes "nat i"]
      by (subst encode_loop.simps) (simp add: Let_def)
    also have "\<dots> = Inr (result @ map (chunk_at bytes) [nat i ..< nat count])"
      unfolding ih next_i using lt by (simp add: upt_conv_Cons)
    finally show ?thesis .
  next
    case False
    then have "nat count \<le> nat i" by simp
    then show ?thesis using False by (subst encode_loop.simps) simp
  qed
qed

lemma chunk_count_nat:
  "0 < n \<Longrightarrow> nat ((int n - 1) div int BUFFER_SIZE + 1) = (n - 1) div 63 + 1"
proof -
  assume "0 < n"
  then have a: "int n - 1 = int (n - 1)" by simp
  have b: "int (n - 1) div int 63 = int ((n - 1) div 63)"
    by (rule zdiv_int [symmetric])
  have "nat (int ((n - 1) div 63) + 1) = (n - 1) div 63 + 1" by simp
  then show ?thesis
    unfolding BUFFER_SIZE_def a b .
qed

lemma encode_chunks_map:
  "0 < length bytes \<Longrightarrow>
   encode_chunks bytes = Inr (map (chunk_at bytes) [0 ..< (length bytes - 1) div 63 + 1])"
proof -
  assume pos: "0 < length bytes"
  have "encode_chunks bytes
        = encode_loop bytes ((int (length bytes) - 1) div int BUFFER_SIZE + 1) 0 []"
    by (simp add: encode_chunks_def Let_def)
  also have "\<dots> = Inr ([] @ map (chunk_at bytes)
                       [nat 0 ..< nat ((int (length bytes) - 1) div int BUFFER_SIZE + 1)])"
    by (rule encode_loop_map) simp
  finally show ?thesis
    by (simp only: chunk_count_nat [OF pos] nat_0 append_Nil)
qed

lemma concat_full_chunks:
  "m * 63 \<le> length bytes \<Longrightarrow> concat (map (chunk_at bytes) [0 ..< m]) = take (m * 63) bytes"
proof (induction m)
  case 0
  show ?case by simp
next
  case (Suc m)
  then have ih: "concat (map (chunk_at bytes) [0 ..< m]) = take (m * 63) bytes" by simp
  have full: "chunk_at bytes m = take 63 (drop (m * 63) bytes)"
    using Suc.prems by (simp add: chunk_at_def)
  have "take (m * 63 + 63) bytes = take (m * 63) bytes @ take 63 (drop (m * 63) bytes)"
    by (simp add: take_add)
  then show ?case using ih full by (simp add: add.commute)
qed

lemma concat_chunks:
  assumes "0 < length bytes"
  shows "concat (map (chunk_at bytes) [0 ..< (length bytes - 1) div 63 + 1])
         = bytes @ replicate (((length bytes - 1) div 63 + 1) * 63 - length bytes) 0"
proof -
  let ?n = "length bytes"
  let ?m = "(?n - 1) div 63"
  have "?m * 63 \<le> ?n - 1"
    by (rule div_times_less_eq_dividend)
  then have le: "?m * 63 \<le> ?n" by simp
  have "?n - 1 < 63 + ?m * 63"
    by (rule dividend_less_div_times) simp
  then have lt: "?n \<le> ?m * 63 + 63" using assms by simp
  have last: "chunk_at bytes ?m = drop (?m * 63) bytes @ replicate (?m * 63 + 63 - ?n) 0"
    using le lt by (simp add: chunk_at_def add.commute)
  have "concat (map (chunk_at bytes) [0 ..< ?m + 1])
        = take (?m * 63) bytes @ chunk_at bytes ?m"
    using concat_full_chunks [OF le] by simp
  also have "\<dots> = bytes @ replicate (?m * 63 + 63 - ?n) 0"
    unfolding last by simp
  finally show ?thesis by simp
qed

lemma ceil_div: "0 < n \<Longrightarrow> (n - 1) div 63 + 1 = (n + 62) div 63" for n :: nat
proof -
  assume "0 < n"
  then have "n + 62 = (n - 1) + 1 * 63" by simp
  then have "(n + 62) div 63 = ((n - 1) + 1 * 63) div 63" by simp
  also have "\<dots> = (n - 1) div 63 + 1" by simp
  finally show ?thesis by simp
qed

lemma encode_chunks_empty: "encode_chunks [] = Inr []"
  by (simp add: encode_chunks_def Let_def BUFFER_SIZE_def encode_loop.simps)

text \<open>The chunk count and the loop of \<open>encode\<close>, on any non-empty byte sequence.\<close>

lemma encode_chunks_split:
  assumes "0 < length bytes"
  shows "\<exists>chunks.
           encode_chunks bytes = Inr chunks
         \<and> length chunks = (length bytes + 62) div 63
         \<and> length chunks = (length bytes - 1) div 63 + 1
         \<and> length bytes \<le> 63 * length chunks
         \<and> 63 * (length chunks - 1) < length bytes
         \<and> (\<forall>c \<in> set chunks. length c = 63)
         \<and> take (length bytes) (concat chunks) = bytes
         \<and> (\<forall>j. length bytes \<le> j \<and> j < length (concat chunks) \<longrightarrow> concat chunks ! j = 0)
         \<and> (\<forall>i < length chunks. chunks ! i = chunk_at bytes i)"
proof -
  let ?n = "length bytes"
  let ?k = "(?n - 1) div 63 + 1"
  let ?chunks = "map (chunk_at bytes) [0 ..< ?k]"
  have enc: "encode_chunks bytes = Inr ?chunks"
    using assms by (rule encode_chunks_map)
  have len: "length ?chunks = ?k" by simp
  have len_ceil: "length ?chunks = (?n + 62) div 63"
    unfolding len using assms by (rule ceil_div)
  have "(?n - 1) div 63 * 63 \<le> ?n - 1"
    by (rule div_times_less_eq_dividend)
  then have "63 * ((?n - 1) div 63) < ?n"
    using assms by linarith
  then have lower: "63 * (length ?chunks - 1) < ?n"
    unfolding len by simp
  have "?n - 1 < 63 + (?n - 1) div 63 * 63"
    by (rule dividend_less_div_times) simp
  then have "?n \<le> 63 * ((?n - 1) div 63) + 63"
    by linarith
  then have upper: "?n \<le> 63 * length ?chunks"
    unfolding len by simp
  have each: "\<forall>c \<in> set ?chunks. length c = 63"
    by (auto simp: length_chunk_at)
  have cc: "concat ?chunks = bytes @ replicate (?k * 63 - ?n) 0"
    using assms by (rule concat_chunks)
  have front: "take ?n (concat ?chunks) = bytes"
    unfolding cc by simp
  have zeros: "\<forall>j. ?n \<le> j \<and> j < length (concat ?chunks) \<longrightarrow> concat ?chunks ! j = 0"
    unfolding cc by (auto simp: nth_append)
  have order: "\<forall>i < length ?chunks. ?chunks ! i = chunk_at bytes i"
    by (simp del: upt_Suc)
  show ?thesis
  proof (intro exI conjI)
    show "encode_chunks bytes = Inr ?chunks" by (fact enc)
    show "length ?chunks = (?n + 62) div 63" by (fact len_ceil)
    show "length ?chunks = (?n - 1) div 63 + 1" by (fact len)
    show "?n \<le> 63 * length ?chunks" by (fact upper)
    show "63 * (length ?chunks - 1) < ?n" by (fact lower)
    show "\<forall>c \<in> set ?chunks. length c = 63" by (fact each)
    show "take ?n (concat ?chunks) = bytes" by (fact front)
    show "\<forall>j. ?n \<le> j \<and> j < length (concat ?chunks) \<longrightarrow> concat ?chunks ! j = 0"
      by (fact zeros)
    show "\<forall>i < length ?chunks. ?chunks ! i = chunk_at bytes i" by (fact order)
  qed
qed

lemma list_of_length_two: "length xs = 2 \<Longrightarrow> xs = [xs ! 0, xs ! 1]"
  by (auto simp: length_Suc_conv numeral_2_eq_2)

text \<open>
  Claim C2. \<open>encode\<close> splits the long encoding with the sentinel, a byte sequence of
  length \<open>n = 8 + payload.length > 0\<close>, into exactly
  \<open>ceil(n / 63) = floor((n - 1) / 63) + 1\<close> chunks (the least \<open>k\<close> with \<open>n \<le> 63 k\<close>), each
  exactly 63 bytes long; the concatenation of the chunks cut to \<open>n\<close> bytes is the encoded
  sequence, every byte of the concatenation at a position \<open>\<ge> n\<close> is zero, and chunk \<open>i\<close>
  is slice \<open>i\<close> of the encoded bytes, so the chunks come in ascending slice order.
\<close>

theorem encode_chunks_correct:
  assumes "type this = JNum t"
    and "encodeAB (message this) = Inr payload"
  shows "\<exists>bytes chunks.
           encodeLong True this = Inr bytes
         \<and> length bytes = 8 + length payload
         \<and> encode this = Inr chunks
         \<and> length chunks = (length bytes + 62) div 63
         \<and> length chunks = (length bytes - 1) div 63 + 1
         \<and> length bytes \<le> 63 * length chunks
         \<and> 63 * (length chunks - 1) < length bytes
         \<and> (\<forall>c \<in> set chunks. length c = 63)
         \<and> take (length bytes) (concat chunks) = bytes
         \<and> (\<forall>j. length bytes \<le> j \<and> j < length (concat chunks) \<longrightarrow> concat chunks ! j = 0)
         \<and> (\<forall>i < length chunks. chunks ! i = chunk_at bytes i)"
proof -
  have "this = \<lparr>message = message this, type = JNum t\<rparr>"
    using assms(1) by simp
  then obtain bytes where
    enc: "encodeLong True this = Inr bytes" and len: "length bytes = 8 + length payload"
    using encodeLong_bytes [OF assms(2), of True t] by simp
  from len have pos: "0 < length bytes" by simp
  from encode_chunks_split [OF pos] obtain chunks where
    split: "encode_chunks bytes = Inr chunks"
    and props: "length chunks = (length bytes + 62) div 63"
      "length chunks = (length bytes - 1) div 63 + 1"
      "length bytes \<le> 63 * length chunks"
      "63 * (length chunks - 1) < length bytes"
      "\<forall>c \<in> set chunks. length c = 63"
      "take (length bytes) (concat chunks) = bytes"
      "\<forall>j. length bytes \<le> j \<and> j < length (concat chunks) \<longrightarrow> concat chunks ! j = 0"
      "\<forall>i < length chunks. chunks ! i = chunk_at bytes i"
    by blast
  have "encode this = Inr chunks"
    using enc split by (simp add: encode_def)
  with enc len props show ?thesis by blast
qed

theorem encode_chunks_correct_witness:
  "type \<lparr>message = \<lparr>type_options = Map.empty, encodeAB = Inr (replicate 100 0xAA)\<rparr>,
         type = JNum 2\<rparr> = JNum 2
   \<and> encodeAB (message \<lparr>message = \<lparr>type_options = Map.empty,
                                     encodeAB = Inr (replicate 100 0xAA)\<rparr>,
                          type = JNum 2\<rparr>) = Inr (replicate 100 0xAA)
   \<and> encodeLong True \<lparr>message = \<lparr>type_options = Map.empty,
                                   encodeAB = Inr (replicate 100 0xAA)\<rparr>,
                       type = JNum 2\<rparr>
       = Inr ([0x23, 0x23, 0x00, 0x02, 0x00, 0x00, 0x00, 0x64] @ replicate 100 0xAA)
   \<and> encode \<lparr>message = \<lparr>type_options = Map.empty, encodeAB = Inr (replicate 100 0xAA)\<rparr>,
              type = JNum 2\<rparr>
       = Inr [[0x23, 0x23, 0x00, 0x02, 0x00, 0x00, 0x00, 0x64] @ replicate 55 0xAA,
              replicate 45 0xAA @ replicate 18 0x00]"
proof -
  let ?m = "\<lparr>message = \<lparr>type_options = Map.empty, encodeAB = Inr (replicate 100 0xAA)\<rparr>,
                 type = JNum 2\<rparr>"
  let ?bytes = "[0x23, 0x23, 0x00, 0x02, 0x00, 0x00, 0x00, 0x64] @ replicate 100 0xAA :: byte list"
  have h1: "type ?m = JNum 2" by simp
  have h2: "encodeAB (message ?m) = Inr (replicate 100 0xAA)" by simp
  have long: "encodeLong True ?m = Inr ?bytes"
    using encodeLong_bytes [of "\<lparr>type_options = Map.empty, encodeAB = Inr (replicate 100 0xAA)\<rparr>"
                               "replicate 100 0xAA" True 2]
    by simp
  from encode_chunks_correct [OF h1 h2] obtain bytes chunks where
    b: "encodeLong True ?m = Inr bytes"
    and e: "encode ?m = Inr chunks"
    and n: "length chunks = (length bytes + 62) div 63"
    and at: "\<forall>i < length chunks. chunks ! i = chunk_at bytes i"
    by blast
  from b long have bytes: "bytes = ?bytes" by simp
  from n have two: "length chunks = 2" unfolding bytes by simp
  have c0: "chunks ! 0 = [0x23, 0x23, 0x00, 0x02, 0x00, 0x00, 0x00, 0x64] @ replicate 55 0xAA"
    using at two unfolding bytes by (simp add: chunk_at_def subarray_def)
  have c1: "chunks ! 1 = replicate 45 0xAA @ replicate 18 0x00"
    using at two unfolding bytes by (simp add: chunk_at_def subarray_def)
  have "chunks = [chunks ! 0, chunks ! 1]"
    using two by (rule list_of_length_two)
  then have "chunks = [[0x23, 0x23, 0x00, 0x02, 0x00, 0x00, 0x00, 0x64] @ replicate 55 0xAA,
                       replicate 45 0xAA @ replicate 18 0x00]"
    unfolding c0 c1 .
  with e have enc: "encode ?m
      = Inr [[0x23, 0x23, 0x00, 0x02, 0x00, 0x00, 0x00, 0x64] @ replicate 55 0xAA,
             replicate 45 0xAA @ replicate 18 0x00]"
    by simp
  from h1 h2 long enc show ?thesis by (intro conjI)
qed

section \<open>Properties of the input cleanup\<close>

lemma cleanup_value_good:
  assumes "good_rec rec" and "\<not> is_nullish v" and "cleanup_value rec v = (v', None)"
  shows "clean v' \<and> \<not> is_nullish v'"
  using assms
  by (cases v) (auto simp: cleanup_value_def good_rec_def split: prod.splits option.splits if_splits)

lemma forIn_props_good:
  assumes "good_rec rec"
  shows "forIn_props rec ps = (ps', None) \<Longrightarrow> \<forall>(k, v) \<in> set ps. k \<noteq> hashKey \<Longrightarrow> clean_props ps'"
proof (induction ps arbitrary: ps')
  case Nil
  then show ?case by simp
next
  case (Cons p ps)
  obtain key "value" where p: "p = (key, value)" by (cases p)
  show ?case
  proof (cases "is_nullish value")
    case True
    with Cons p show ?thesis by simp
  next
    case False
    with Cons.prems p obtain value' ps1 where
      cv: "cleanup_value rec value = (value', None)" and
      rest: "forIn_props rec ps = (ps1, None)" and
      ps': "ps' = (key, value') # ps1"
      by (auto split: prod.splits option.splits)
    from cleanup_value_good [OF assms False cv] Cons.IH [OF rest] Cons.prems(2) p ps'
    show ?thesis by simp
  qed
qed

lemma forIn_elems_good:
  assumes "good_rec rec"
  shows "forIn_elems rec es = (es', None) \<Longrightarrow> clean_elems es'"
proof (induction es arbitrary: es')
  case Nil
  then show ?case by simp
next
  case (Cons x es)
  show ?case
  proof (cases x)
    case None
    with Cons show ?thesis by (auto split: prod.splits)
  next
    case (Some "value")
    show ?thesis
    proof (cases "is_nullish value")
      case True
      with Cons Some show ?thesis by (auto split: prod.splits)
    next
      case False
      with Cons.prems Some obtain value' es1 where
        cv: "cleanup_value rec value = (value', None)" and
        rest: "forIn_elems rec es = (es1, None)" and
        es': "es' = Some value' # es1"
        by (auto split: prod.splits option.splits)
      from cleanup_value_good [OF assms False cv] Cons.IH [OF rest] es'
      show ?thesis by simp
    qed
  qed
qed

lemma cleanupInput_good: "good_rec (cleanupInput n)"
proof (induction n)
  case 0
  show ?case by (simp add: good_rec_def)
next
  case (Suc n)
  show ?case
    unfolding good_rec_def
  proof (intro allI impI)
    fix v v'
    assume a: "cleanupInput (Suc n) v = (v', None)"
    show "clean v' \<and> \<not> is_nullish v'"
    proof (cases v)
      case (JObj ps)
      with a obtain ps' where
        r: "forIn_props (cleanupInput n) (filter (\<lambda>(key, value). key \<noteq> hashKey) ps) = (ps', None)"
        and v': "v' = JObj ps'"
        by (auto split: prod.splits)
      from forIn_props_good [OF Suc r] v' show ?thesis by auto
    next
      case (JArr es)
      with a obtain es' where
        r: "forIn_elems (cleanupInput n) es = (es', None)" and v': "v' = JArr es'"
        by (auto split: prod.splits)
      from forIn_elems_good [OF Suc r] v' show ?thesis by simp
    qed (use a in auto)
  qed
qed

lemma forEach_keep:
  assumes "keep_rec rec"
  shows "clean_elems es \<Longrightarrow> forEach_cleanup rec es = (es', None) \<Longrightarrow> es' = es"
proof (induction es arbitrary: es')
  case Nil
  then show ?case by simp
next
  case (Cons x es)
  show ?case
  proof (cases x)
    case None
    with Cons show ?thesis by (auto split: prod.splits)
  next
    case (Some i)
    with Cons.prems have ci: "clean i" and ce: "clean_elems es" by simp_all
    show ?thesis
    proof (cases "typeof_object i")
      case True
      with Cons.prems Some obtain i' es1 where
        ri: "rec i = (i', None)" and rest: "forEach_cleanup rec es = (es1, None)"
        and es': "es' = Some i' # es1"
        by (auto split: prod.splits option.splits)
      from assms ci ri have "i' = i" by (auto simp: keep_rec_def)
      with Cons.IH [OF ce rest] es' Some show ?thesis by simp
    next
      case False
      with Cons.prems Some obtain es1 where
        rest: "forEach_cleanup rec es = (es1, None)" and es': "es' = Some i # es1"
        by (auto split: prod.splits)
      with Cons.IH [OF ce rest] Some show ?thesis by simp
    qed
  qed
qed

lemma cleanup_value_keep:
  assumes "keep_rec rec" and "clean v" and "cleanup_value rec v = (v', None)"
  shows "v' = v"
proof (cases v)
  case (JArr es)
  with assms(3) obtain es1 where
    fe: "forEach_cleanup rec es = (es1, None)" and r: "rec (JArr es1) = (v', None)"
    by (auto simp: cleanup_value_def split: prod.splits option.splits)
  from assms(2) JArr have "clean_elems es" by simp
  from forEach_keep [OF assms(1) this fe] have "es1 = es" .
  with r assms(1,2) JArr show ?thesis by (auto simp: keep_rec_def)
next
  case (JObj ps)
  with assms show ?thesis by (auto simp: cleanup_value_def keep_rec_def)
qed (use assms in \<open>auto simp: cleanup_value_def keep_rec_def\<close>)

lemma forIn_props_keep:
  assumes "keep_rec rec"
  shows "clean_props ps \<Longrightarrow> forIn_props rec ps = (ps', None) \<Longrightarrow> ps' = ps"
proof (induction ps arbitrary: ps')
  case Nil
  then show ?case by simp
next
  case (Cons p ps)
  obtain key "value" where p: "p = (key, value)" by (cases p)
  with Cons.prems have nn: "\<not> is_nullish value" and cv: "clean value" and cp: "clean_props ps"
    by simp_all
  with Cons.prems p obtain value' ps1 where
    r: "cleanup_value rec value = (value', None)" and
    rest: "forIn_props rec ps = (ps1, None)" and
    ps': "ps' = (key, value') # ps1"
    by (auto split: prod.splits option.splits)
  from cleanup_value_keep [OF assms cv r] Cons.IH [OF cp rest] ps' p show ?case by simp
qed

lemma forIn_elems_keep:
  assumes "keep_rec rec"
  shows "clean_elems es \<Longrightarrow> forIn_elems rec es = (es', None) \<Longrightarrow> es' = es"
proof (induction es arbitrary: es')
  case Nil
  then show ?case by simp
next
  case (Cons x es)
  show ?case
  proof (cases x)
    case None
    with Cons show ?thesis by (auto split: prod.splits)
  next
    case (Some "value")
    with Cons.prems have nn: "\<not> is_nullish value" and cv: "clean value" and ce: "clean_elems es"
      by simp_all
    with Cons.prems Some obtain value' es1 where
      r: "cleanup_value rec value = (value', None)" and
      rest: "forIn_elems rec es = (es1, None)" and
      es': "es' = Some value' # es1"
      by (auto split: prod.splits option.splits)
    from cleanup_value_keep [OF assms cv r] Cons.IH [OF ce rest] es' Some show ?thesis by simp
  qed
qed

lemma clean_props_filter:
  "clean_props ps \<Longrightarrow> filter (\<lambda>(key, value). key \<noteq> hashKey) ps = ps"
  by (induction ps) auto

lemma cleanupInput_keep: "keep_rec (cleanupInput n)"
proof (induction n)
  case 0
  show ?case by (simp add: keep_rec_def)
next
  case (Suc n)
  show ?case
    unfolding keep_rec_def
  proof (intro allI impI)
    fix v v'
    assume c: "clean v" and a: "cleanupInput (Suc n) v = (v', None)"
    show "v' = v"
    proof (cases v)
      case (JObj ps)
      with c have cp: "clean_props ps" by simp
      with a JObj obtain ps' where
        r: "forIn_props (cleanupInput n) ps = (ps', None)" and v': "v' = JObj ps'"
        by (auto simp: clean_props_filter split: prod.splits)
      from forIn_props_keep [OF Suc cp r] v' JObj show ?thesis by simp
    next
      case (JArr es)
      with c have ce: "clean_elems es" by simp
      with a JArr obtain es' where
        r: "forIn_elems (cleanupInput n) es = (es', None)" and v': "v' = JArr es'"
        by (auto split: prod.splits)
      from forIn_elems_keep [OF Suc ce r] v' JArr show ?thesis by simp
    qed (use a in auto)
  qed
qed

lemma cleanupInput_clean:
  "cleanupInput n v = (v', None) \<Longrightarrow> clean v'"
  using cleanupInput_good [of n] by (auto simp: good_rec_def)

lemma cleanupInput_unchanged_iff:
  "cleanupInput n v = (v', None) \<Longrightarrow> (v' = v) = clean v"
  using cleanupInput_clean [of n v v'] cleanupInput_keep [of n]
  by (auto simp: keep_rec_def)

lemma shrinkingD: "shrinking rec \<Longrightarrow> rec v = (v', r) \<Longrightarrow> depth v' \<le> depth v"
  unfolding shrinking_def by blast

lemma forEach_depth:
  assumes "shrinking rec"
  shows "forEach_cleanup rec es = (es', r) \<Longrightarrow> depth_elems es' \<le> depth_elems es"
proof (induction es arbitrary: es' r)
  case Nil
  then show ?case by simp
next
  case (Cons x es)
  show ?case
  proof (cases x)
    case None
    with Cons show ?thesis by (auto split: prod.splits)
  next
    case (Some i)
    with Cons assms show ?thesis
      by (fastforce simp: shrinking_def split: prod.splits option.splits if_splits)
  qed
qed

lemma cleanup_value_depth:
  assumes "shrinking rec" and "cleanup_value rec v = (v', r)"
  shows "depth v' \<le> depth v"
proof (cases v)
  case (JArr es)
  obtain es1 r1 where fe: "forEach_cleanup rec es = (es1, r1)" by (cases "forEach_cleanup rec es")
  from forEach_depth [OF assms(1) fe] have d: "depth (JArr es1) \<le> depth (JArr es)" by simp
  show ?thesis
  proof (cases r1)
    case None
    with assms(2) JArr fe have "rec (JArr es1) = (v', r)" by (simp add: cleanup_value_def)
    with assms(1) have "depth v' \<le> depth (JArr es1)"
      unfolding shrinking_def by blast
    with d JArr show ?thesis by simp
  next
    case (Some e)
    with assms(2) JArr fe have "v' = JArr es1" by (simp add: cleanup_value_def)
    with d JArr show ?thesis by simp
  qed
qed (use assms in \<open>auto simp: cleanup_value_def dest: shrinkingD\<close>)

lemma forIn_props_depth:
  assumes "shrinking rec"
  shows "forIn_props rec ps = (ps', r) \<Longrightarrow> depth_props ps' \<le> depth_props ps"
proof (induction ps arbitrary: ps' r)
  case Nil
  then show ?case by simp
next
  case (Cons p ps)
  obtain key "value" where p: "p = (key, value)" by (cases p)
  obtain value' r1 where cv: "cleanup_value rec value = (value', r1)"
    by (cases "cleanup_value rec value")
  from cleanup_value_depth [OF assms cv] have dv: "depth value' \<le> depth value" .
  obtain ps1 r2 where rest: "forIn_props rec ps = (ps1, r2)" by (cases "forIn_props rec ps")
  from Cons.IH [OF rest] have dp: "depth_props ps1 \<le> depth_props ps" .
  from Cons.prems p cv rest dv dp show ?case
    by (auto split: if_splits option.splits)
qed

lemma forIn_elems_depth:
  assumes "shrinking rec"
  shows "forIn_elems rec es = (es', r) \<Longrightarrow> depth_elems es' \<le> depth_elems es"
proof (induction es arbitrary: es' r)
  case Nil
  then show ?case by simp
next
  case (Cons x es)
  obtain es1 r2 where rest: "forIn_elems rec es = (es1, r2)" by (cases "forIn_elems rec es")
  from Cons.IH [OF rest] have dp: "depth_elems es1 \<le> depth_elems es" .
  show ?case
  proof (cases x)
    case None
    with Cons.prems rest dp show ?thesis by auto
  next
    case (Some "value")
    obtain value' r1 where cv: "cleanup_value rec value = (value', r1)"
      by (cases "cleanup_value rec value")
    from cleanup_value_depth [OF assms cv] have dv: "depth value' \<le> depth value" .
    from Cons.prems Some cv rest dv dp show ?thesis
      by (auto split: if_splits option.splits)
  qed
qed

lemma depth_props_filter: "depth_props (filter P ps) \<le> depth_props ps"
  by (induction ps) auto

lemma cleanupInput_shrinking: "shrinking (cleanupInput n)"
proof (induction n)
  case 0
  show ?case by (simp add: shrinking_def)
next
  case (Suc n)
  show ?case
    unfolding shrinking_def
  proof (intro allI impI)
    fix v v' r
    assume a: "cleanupInput (Suc n) v = (v', r)"
    show "depth v' \<le> depth v"
    proof (cases v)
      case (JObj ps)
      let ?ps = "filter (\<lambda>(key, value). key \<noteq> hashKey) ps"
      obtain ps' r' where f: "forIn_props (cleanupInput n) ?ps = (ps', r')"
        by (cases "forIn_props (cleanupInput n) ?ps")
      from forIn_props_depth [OF Suc f] depth_props_filter [of _ ps]
      have "depth_props ps' \<le> depth_props ps" by (rule order_trans)
      with a JObj f show ?thesis by auto
    next
      case (JArr es)
      obtain es' r' where f: "forIn_elems (cleanupInput n) es = (es', r')"
        by (cases "forIn_elems (cleanupInput n) es")
      from forIn_elems_depth [OF Suc f] a JArr f show ?thesis by auto
    qed (use a in auto)
  qed
qed

lemma forEach_stack:
  assumes "enough_stack rec n"
  shows "depth_elems es < n \<Longrightarrow> snd (forEach_cleanup rec es) \<noteq> Some StackOverflow"
proof (induction es)
  case Nil
  then show ?case by simp
next
  case (Cons x es)
  show ?case
  proof (cases x)
    case None
    with Cons show ?thesis by (auto split: prod.splits)
  next
    case (Some i)
    with Cons.prems have di: "depth i < n" and de: "depth_elems es < n" by simp_all
    from assms di have "snd (rec i) \<noteq> Some StackOverflow" by (simp add: enough_stack_def)
    with Cons.IH [OF de] Some show ?thesis
      by (auto split: prod.splits option.splits)
  qed
qed

lemma cleanup_value_stack:
  assumes "enough_stack rec n" and "shrinking rec" and "depth v < n"
  shows "snd (cleanup_value rec v) \<noteq> Some StackOverflow"
proof (cases v)
  case (JArr es)
  obtain es1 r1 where fe: "forEach_cleanup rec es = (es1, r1)" by (cases "forEach_cleanup rec es")
  from assms(3) JArr have de: "depth_elems es < n" by simp
  from forEach_stack [OF assms(1) de] fe have r1: "r1 \<noteq> Some StackOverflow" by simp
  from forEach_depth [OF assms(2) fe] assms(3) JArr have "depth (JArr es1) < n" by simp
  with assms(1) have "snd (rec (JArr es1)) \<noteq> Some StackOverflow" by (simp add: enough_stack_def)
  with JArr fe r1 show ?thesis
    by (auto simp: cleanup_value_def split: option.splits)
qed (use assms in \<open>auto simp: cleanup_value_def enough_stack_def\<close>)

lemma forIn_props_stack:
  assumes "enough_stack rec n" and "shrinking rec"
  shows "depth_props ps < n \<Longrightarrow> snd (forIn_props rec ps) \<noteq> Some StackOverflow"
proof (induction ps)
  case Nil
  then show ?case by simp
next
  case (Cons p ps)
  obtain key "value" where p: "p = (key, value)" by (cases p)
  with Cons.prems have dv: "depth value < n" and dp: "depth_props ps < n" by simp_all
  from cleanup_value_stack [OF assms dv] Cons.IH [OF dp] p show ?case
    by (auto split: prod.splits option.splits)
qed

lemma forIn_elems_stack:
  assumes "enough_stack rec n" and "shrinking rec"
  shows "depth_elems es < n \<Longrightarrow> snd (forIn_elems rec es) \<noteq> Some StackOverflow"
proof (induction es)
  case Nil
  then show ?case by simp
next
  case (Cons x es)
  show ?case
  proof (cases x)
    case None
    with Cons show ?thesis by (auto split: prod.splits)
  next
    case (Some "value")
    with Cons.prems have dv: "depth value < n" and de: "depth_elems es < n" by simp_all
    from cleanup_value_stack [OF assms dv] Cons.IH [OF de] Some show ?thesis
      by (auto split: prod.splits option.splits)
  qed
qed

lemma cleanupInput_enough_stack: "enough_stack (cleanupInput n) n"
proof (induction n)
  case 0
  show ?case by (simp add: enough_stack_def)
next
  case (Suc n)
  show ?case
    unfolding enough_stack_def
  proof (intro allI impI)
    fix v
    assume d: "depth v < Suc n"
    show "snd (cleanupInput (Suc n) v) \<noteq> Some StackOverflow"
    proof (cases v)
      case (JObj ps)
      let ?ps = "filter (\<lambda>(key, value). key \<noteq> hashKey) ps"
      from d JObj have "depth_props ps < n" by simp
      with depth_props_filter [of "\<lambda>(key, value). key \<noteq> hashKey" ps]
      have "depth_props ?ps < n" by (rule le_less_trans)
      from forIn_props_stack [OF Suc cleanupInput_shrinking this] JObj show ?thesis
        by (auto split: prod.splits)
    next
      case (JArr es)
      with d have "depth_elems es < n" by simp
      from forIn_elems_stack [OF Suc cleanupInput_shrinking this] JArr show ?thesis
        by (auto split: prod.splits)
    qed auto
  qed
qed

lemma cleanupInput_no_overflow:
  "depth data < stack \<Longrightarrow> snd (cleanupInput stack data) \<noteq> Some StackOverflow"
  using cleanupInput_enough_stack [of stack] by (simp add: enough_stack_def)

text \<open>The cleanup returns normally exactly on the values that \<open>completes\<close> describes.\<close>

lemma clean_completes:
  "clean v \<Longrightarrow> completes_value v \<and> (\<not> is_nullish v \<longrightarrow> completes v)"
  "clean_props ps \<Longrightarrow> completes_props ps"
  "clean_elems es \<Longrightarrow> completes_elems es \<and> completes_each es"
  by (induction v and ps and es rule: clean_clean_props_clean_elems.induct) auto

lemma not_object_completes_value: "\<not> typeof_object i \<Longrightarrow> completes_value i"
  by (cases i) auto

lemma forEach_exact:
  assumes "exact_rec rec n"
  shows "depth_elems es < n \<Longrightarrow> (snd (forEach_cleanup rec es) = None) = completes_each es"
proof (induction es)
  case Nil
  show ?case by simp
next
  case (Cons x es)
  show ?case
  proof (cases x)
    case None
    with Cons show ?thesis by (auto split: prod.splits)
  next
    case (Some i)
    with Cons.prems have di: "depth i < n" and de: "depth_elems es < n" by simp_all
    from assms di have ex: "(snd (rec i) = None) = completes i" by (simp add: exact_rec_def)
    from Cons.IH [OF de] ex Some show ?thesis
      by (cases "rec i"; cases "forEach_cleanup rec es") (auto split: option.splits)
  qed
qed

lemma forEach_result_completes:
  assumes "good_rec rec"
  shows "forEach_cleanup rec es = (es', None) \<Longrightarrow> completes_elems es'"
proof (induction es arbitrary: es')
  case Nil
  then show ?case by simp
next
  case (Cons x es)
  show ?case
  proof (cases x)
    case None
    with Cons show ?thesis by (auto split: prod.splits)
  next
    case (Some i)
    show ?thesis
    proof (cases "typeof_object i")
      case True
      with Cons.prems Some obtain i' es1 where
        ri: "rec i = (i', None)" and rest: "forEach_cleanup rec es = (es1, None)"
        and es': "es' = Some i' # es1"
        by (auto split: prod.splits option.splits)
      from assms ri have "clean i'" by (auto simp: good_rec_def)
      then have "completes_value i'" by (simp add: clean_completes)
      with Cons.IH [OF rest] es' show ?thesis by simp
    next
      case False
      with Cons.prems Some obtain es1 where
        rest: "forEach_cleanup rec es = (es1, None)" and es': "es' = Some i # es1"
        by (auto split: prod.splits)
      from False have "completes_value i" by (rule not_object_completes_value)
      with Cons.IH [OF rest] es' show ?thesis by simp
    qed
  qed
qed

lemma cleanup_value_exact:
  assumes "exact_rec rec n" and "good_rec rec" and "shrinking rec"
    and "depth v < n" and "\<not> is_nullish v"
  shows "(snd (cleanup_value rec v) = None) = completes_value v"
proof (cases v)
  case (JArr es)
  obtain es1 r1 where fe: "forEach_cleanup rec es = (es1, r1)" by (cases "forEach_cleanup rec es")
  from assms(4) JArr have de: "depth_elems es < n" by simp
  from forEach_exact [OF assms(1) de] fe have r1: "(r1 = None) = completes_each es" by simp
  show ?thesis
  proof (cases r1)
    case None
    from forEach_depth [OF assms(3) fe] assms(4) JArr have "depth (JArr es1) < n" by simp
    with assms(1) have "(snd (rec (JArr es1)) = None) = completes (JArr es1)"
      by (simp add: exact_rec_def)
    moreover from forEach_result_completes [OF assms(2)] fe None have "completes_elems es1"
      by simp
    ultimately have "snd (rec (JArr es1)) = None" by simp
    with JArr fe None r1 show ?thesis by (simp add: cleanup_value_def)
  next
    case (Some e)
    with JArr fe r1 show ?thesis by (simp add: cleanup_value_def)
  qed
next
  case (JObj ps)
  with assms(1,4) have "(snd (rec (JObj ps)) = None) = completes (JObj ps)"
    by (simp add: exact_rec_def)
  with JObj show ?thesis by (simp add: cleanup_value_def)
qed (use assms(5) in \<open>auto simp: cleanup_value_def\<close>)

lemma forIn_props_exact:
  assumes "exact_rec rec n" and "good_rec rec" and "shrinking rec"
  shows "depth_props ps < n \<Longrightarrow> \<forall>(key, value) \<in> set ps. key \<noteq> hashKey
           \<Longrightarrow> (snd (forIn_props rec ps) = None) = completes_props ps"
proof (induction ps)
  case Nil
  show ?case by simp
next
  case (Cons p ps)
  obtain key "value" where p: "p = (key, value)" by (cases p)
  with Cons.prems have dv: "depth value < n" and dp: "depth_props ps < n"
    and nk: "key \<noteq> hashKey" and rest: "\<forall>(key, value) \<in> set ps. key \<noteq> hashKey"
    by simp_all
  note ih = Cons.IH [OF dp rest]
  show ?case
  proof (cases "is_nullish value")
    case True
    with ih p show ?thesis by simp
  next
    case False
    from cleanup_value_exact [OF assms dv False]
    have "(snd (cleanup_value rec value) = None) = completes_value value" .
    with ih p nk False show ?thesis
      by (cases "cleanup_value rec value"; cases "forIn_props rec ps")
         (auto split: option.splits)
  qed
qed

lemma forIn_elems_exact:
  assumes "exact_rec rec n" and "good_rec rec" and "shrinking rec"
  shows "depth_elems es < n \<Longrightarrow> (snd (forIn_elems rec es) = None) = completes_elems es"
proof (induction es)
  case Nil
  show ?case by simp
next
  case (Cons x es)
  show ?case
  proof (cases x)
    case None
    with Cons show ?thesis by (auto split: prod.splits)
  next
    case (Some "value")
    with Cons.prems have dv: "depth value < n" and de: "depth_elems es < n" by simp_all
    note ih = Cons.IH [OF de]
    show ?thesis
    proof (cases "is_nullish value")
      case True
      with ih Some show ?thesis by (auto split: prod.splits)
    next
      case False
      from cleanup_value_exact [OF assms dv False]
      have "(snd (cleanup_value rec value) = None) = completes_value value" .
      with ih Some False show ?thesis
        by (cases "cleanup_value rec value"; cases "forIn_elems rec es")
           (auto split: option.splits)
    qed
  qed
qed

lemma completes_props_filter:
  "completes_props (filter (\<lambda>(key, value). key \<noteq> hashKey) ps) = completes_props ps"
  by (induction ps) auto

lemma cleanupInput_exact: "exact_rec (cleanupInput n) n"
proof (induction n)
  case 0
  show ?case by (simp add: exact_rec_def)
next
  case (Suc n)
  show ?case
    unfolding exact_rec_def
  proof (intro allI impI)
    fix v
    assume d: "depth v < Suc n"
    show "(snd (cleanupInput (Suc n) v) = None) = completes v"
    proof (cases v)
      case (JObj ps)
      let ?ps = "filter (\<lambda>(key, value). key \<noteq> hashKey) ps"
      from d JObj have "depth_props ps < n" by simp
      with depth_props_filter [of "\<lambda>(key, value). key \<noteq> hashKey" ps]
      have dp: "depth_props ?ps < n" by (rule le_less_trans)
      have nk: "\<forall>(key, value) \<in> set ?ps. key \<noteq> hashKey" by auto
      from forIn_props_exact [OF Suc cleanupInput_good cleanupInput_shrinking dp nk]
      have "(snd (forIn_props (cleanupInput n) ?ps) = None) = completes_props ps"
        by (simp only: completes_props_filter)
      with JObj show ?thesis by (auto split: prod.splits)
    next
      case (JArr es)
      with d have de: "depth_elems es < n" by simp
      from forIn_elems_exact [OF Suc cleanupInput_good cleanupInput_shrinking de] JArr
      show ?thesis by (auto split: prod.splits)
    qed auto
  qed
qed

lemma cleanupInput_completes_iff:
  "depth data < stack \<Longrightarrow> (snd (cleanupInput stack data) = None) = completes data"
  using cleanupInput_exact [of stack] by (simp add: exact_rec_def)

lemma BuiltMessage_new_data:
  assumes "messagesByName messages name = Some Builder"
    and "cleanupInput stack data = (data', r)"
  shows "fst (BuiltMessage_new stack messages name data) = data'"
  using assms by (simp add: BuiltMessage_new_def split: option.splits sum.splits)

text \<open>
  What \<open>buildBuffers\<close>, \<open>buildOne\<close> and \<open>buildAndSend\<close> do to their \<open>data\<close> argument when the
  message name is known and the cleanup returns normally: the caller's object is
  afterwards the cleaned object; it is left as it was exactly when there was nothing to
  delete.
\<close>

lemma encode_calls_clean_data:
  assumes "messagesByName messages name = Some Builder"
    and "cleanupInput stack data = (data', None)"
  shows "fst (BuiltMessage_new stack messages name data) = data'
       \<and> fst (buildBuffers stack messages name data) = data'
       \<and> fst (buildOne stack messages name data) = data'
       \<and> fst (buildAndSend stack messages sender name data s) = data'
       \<and> clean data'
       \<and> (data' = data) = clean data"
proof -
  have new: "fst (BuiltMessage_new stack messages name data) = data'"
    using assms by (rule BuiltMessage_new_data)
  have bb: "fst (buildBuffers stack messages name data) = data'"
    using new
    by (cases "BuiltMessage_new stack messages name data")
       (auto simp: buildBuffers_def split: sum.splits)
  have bo: "fst (buildOne stack messages name data) = data'"
    using new
    by (cases "BuiltMessage_new stack messages name data")
       (auto simp: buildOne_def split: sum.splits)
  have bs: "fst (buildAndSend stack messages sender name data s) = data'"
    using bb
    by (cases "buildBuffers stack messages name data")
       (auto simp: buildAndSend_def split: sum.splits)
  have c: "clean data'"
    using assms(2) by (rule cleanupInput_clean)
  have u: "(data' = data) = clean data"
    using assms(2) by (rule cleanupInput_unchanged_iff)
  from new bb bo bs c u show ?thesis by blast
qed

lemma encode_calls_clean_data_complete:
  assumes "messagesByName messages name = Some Builder"
    and "depth data < stack" and "completes data"
  shows "\<exists>data'. cleanupInput stack data = (data', None)
           \<and> fst (buildBuffers stack messages name data) = data'
           \<and> fst (buildOne stack messages name data) = data'
           \<and> fst (buildAndSend stack messages sender name data s) = data'
           \<and> clean data'
           \<and> (data' = data) = clean data"
proof -
  from assms(2,3) have "snd (cleanupInput stack data) = None"
    by (simp add: cleanupInput_completes_iff)
  then obtain data' where run: "cleanupInput stack data = (data', None)"
    by (cases "cleanupInput stack data") simp
  from encode_calls_clean_data [OF assms(1) run, of sender s] run show ?thesis by blast
qed

lemma encode_calls_clean_data_example:
  "cleanupInput 5
        (JObj [(''$$hashKey'', JStr ''object:3''),
               (''coin_name'', JNull),
               (''address_n'', JArr [Some (JNum 44), Some JUndefined]),
               (''nested'', JObj [(''x'', JUndefined),
                                  (''items'', JArr [Some (JObj [(''$$hashKey'', JStr ''k''),
                                                               (''v'', JNum 1)])])])])
      = (JObj [(''address_n'', JArr [Some (JNum 44), None]),
               (''nested'', JObj [(''items'', JArr [Some (JObj [(''v'', JNum 1)])])])], None)"
  by (simp add: eval_nat_numeral hashKey_def cleanup_value_def)

text \<open>
  Claim C10. \<open>buildBuffers\<close>, \<open>buildOne\<close> and \<open>buildAndSend\<close> are to delete, in the caller's
  \<open>data\<close> object and before encoding, the \<open>$$hashKey\<close> property and every property whose
  value is null or undefined, recursively through nested objects and arrays. The code
  does so whenever its cleanup returns (the lemmas above), but it does not on the object
  \<open>{a: [null], b: null}\<close>: \<open>typeof null\<close> is \<open>`object`\<close>, so the \<open>forEach\<close> over the array passes
  the null element to \<open>cleanupInput\<close>, which throws on it. With any stack of three frames
  or more and a known message name the call fails with that \<open>TypeError\<close> before the builder
  is reached, and the caller's object still has its property \<open>b\<close> with the value null.
\<close>

theorem cleanup_throws_on_null_array_element:
  "\<not> completes (JObj [(''a'', JArr [Some JNull]), (''b'', JNull)])
   \<and> cleanupInput (Suc (Suc (Suc stack))) (JObj [(''a'', JArr [Some JNull]), (''b'', JNull)])
       = (JObj [(''a'', JArr [Some JNull]), (''b'', JNull)], Some TypeError)
   \<and> buildBuffers (Suc (Suc (Suc stack)))
        \<lparr>messagesByName = [''GetAddress'' \<mapsto> (\<lambda>d. Inr \<lparr>type_options = Map.empty, encodeAB = Inr []\<rparr>)],
         messageTypes = [''MessageType_GetAddress'' \<mapsto> JNum 29]\<rparr> ''GetAddress''
        (JObj [(''a'', JArr [Some JNull]), (''b'', JNull)])
       = (JObj [(''a'', JArr [Some JNull]), (''b'', JNull)], Inl TypeError)
   \<and> buildOne (Suc (Suc (Suc stack)))
        \<lparr>messagesByName = [''GetAddress'' \<mapsto> (\<lambda>d. Inr \<lparr>type_options = Map.empty, encodeAB = Inr []\<rparr>)],
         messageTypes = [''MessageType_GetAddress'' \<mapsto> JNum 29]\<rparr> ''GetAddress''
        (JObj [(''a'', JArr [Some JNull]), (''b'', JNull)])
       = (JObj [(''a'', JArr [Some JNull]), (''b'', JNull)], Inl TypeError)
   \<and> \<not> clean (JObj [(''a'', JArr [Some JNull]), (''b'', JNull)])"
  by (simp add: hashKey_def cleanup_value_def buildBuffers_def buildOne_def BuiltMessage_new_def)

text \<open>
  Claim C6, as stated, fails. With a schema that has no \<open>(wire_type)\<close> option and a table
  without the key \<open>MessageType_Ping\<close>, the constructor raises no error: it completes, and
  the type tag of the new instance is undefined.
\<close>

theorem constructor_undefined_type_counterexample:
  "messageTypes
     \<lparr>messagesByName = [''Ping'' \<mapsto> (\<lambda>d. Inr \<lparr>type_options = Map.empty, encodeAB = Inr []\<rparr>)],
      messageTypes = Map.empty\<rparr> ''MessageType_Ping'' = None
   \<and> BuiltMessage_new 1
       \<lparr>messagesByName = [''Ping'' \<mapsto> (\<lambda>d. Inr \<lparr>type_options = Map.empty, encodeAB = Inr []\<rparr>)],
        messageTypes = Map.empty\<rparr> ''Ping'' (JObj [])
     = (JObj [], Inr \<lparr>message = \<lparr>type_options = Map.empty, encodeAB = Inr []\<rparr>,
                       type = JUndefined\<rparr>)"
  by (simp add: BuiltMessage_new_def get_prop_def)

text \<open>
  Claim C6, amended. When the resolved schema declares no numeric \<open>(wire_type)\<close> option
  and the name-based table has no entry under \<open>"MessageType_" + name\<close>, the constructor
  raises no error of its own: it completes with the type tag undefined (the value of the
  missing table entry; the tag is not defaulted to a number). \<open>buildBuffers\<close> and
  \<open>buildOne\<close> then fail in \<open>_encodeLong\<close>: with the error of \<open>encodeAB()\<close> if the message does
  not serialise, and otherwise when the header is written, where the byte buffer rejects
  the undefined type with its \<open>TypeError\<close>. No distinct configuration error exists.
\<close>

theorem constructor_leaves_type_undefined:
  assumes "messagesByName messages name = Some Builder"
    and "cleanupInput stack data = (data', None)"
    and "(if truthy data' then Builder (Some data') else Builder None) = Inr msg"
    and "\<not> typeof_number (get_prop (type_options msg) ''(wire_type)'')"
    and "messageTypes messages (''MessageType_'' @ name) = None"
  shows "BuiltMessage_new stack messages name data
           = (data', Inr \<lparr>message = msg, type = JUndefined\<rparr>)
       \<and> (\<forall>payload. encodeAB msg = Inr payload
            \<longrightarrow> buildBuffers stack messages name data = (data', Inl TypeError)
              \<and> buildOne stack messages name data = (data', Inl TypeError))
       \<and> (\<forall>e. encodeAB msg = Inl e
            \<longrightarrow> buildBuffers stack messages name data = (data', Inl e)
              \<and> buildOne stack messages name data = (data', Inl e))"
proof -
  have new: "BuiltMessage_new stack messages name data
               = (data', Inr \<lparr>message = msg, type = JUndefined\<rparr>)"
    using assms by (simp add: BuiltMessage_new_def get_prop_def)
  have ok: "encodeLong b \<lparr>message = msg, type = JUndefined\<rparr> = Inl TypeError"
    if "encodeAB msg = Inr payload" for b payload
    using that by (intro encodeLong_undefined_type [of _ payload]) simp_all
  have bad: "encodeLong b \<lparr>message = msg, type = JUndefined\<rparr> = Inl e"
    if "encodeAB msg = Inl e" for b e
    using that by (intro encodeLong_serialisation_error) simp
  have a: "buildBuffers stack messages name data = (data', Inl TypeError)
           \<and> buildOne stack messages name data = (data', Inl TypeError)"
    if "encodeAB msg = Inr payload" for payload
    using ok [OF that] by (simp add: buildBuffers_def buildOne_def new encode_def encodeOne_def)
  have b: "buildBuffers stack messages name data = (data', Inl e)
           \<and> buildOne stack messages name data = (data', Inl e)"
    if "encodeAB msg = Inl e" for e
    using bad [OF that] by (simp add: buildBuffers_def buildOne_def new encode_def encodeOne_def)
  from new a b show ?thesis by blast
qed

theorem constructor_leaves_type_undefined_witness:
  "messagesByName
     \<lparr>messagesByName = [''Ping'' \<mapsto> (\<lambda>d. Inr \<lparr>type_options = Map.empty, encodeAB = Inr [1]\<rparr>)],
      messageTypes = [''MessageType_Pong'' \<mapsto> JNum 3]\<rparr> ''Ping''
     = Some (\<lambda>d. Inr \<lparr>type_options = Map.empty, encodeAB = Inr [1]\<rparr>)
   \<and> cleanupInput 1 (JObj []) = (JObj [], None)
   \<and> \<not> typeof_number (get_prop (type_options \<lparr>type_options = Map.empty, encodeAB = Inr [1]\<rparr>)
                                 ''(wire_type)'')
   \<and> messageTypes
       \<lparr>messagesByName = [''Ping'' \<mapsto> (\<lambda>d. Inr \<lparr>type_options = Map.empty, encodeAB = Inr [1]\<rparr>)],
        messageTypes = [''MessageType_Pong'' \<mapsto> JNum 3]\<rparr> (''MessageType_'' @ ''Ping'') = None
   \<and> BuiltMessage_new 1
       \<lparr>messagesByName = [''Ping'' \<mapsto> (\<lambda>d. Inr \<lparr>type_options = Map.empty, encodeAB = Inr [1]\<rparr>)],
        messageTypes = [''MessageType_Pong'' \<mapsto> JNum 3]\<rparr> ''Ping'' (JObj [])
     = (JObj [], Inr \<lparr>message = \<lparr>type_options = Map.empty, encodeAB = Inr [1]\<rparr>,
                       type = JUndefined\<rparr>)
   \<and> buildBuffers 1
       \<lparr>messagesByName = [''Ping'' \<mapsto> (\<lambda>d. Inr \<lparr>type_options = Map.empty, encodeAB = Inr [1]\<rparr>)],
        messageTypes = [''MessageType_Pong'' \<mapsto> JNum 3]\<rparr> ''Ping'' (JObj [])
     = (JObj [], Inl TypeError)"
proof -
  let ?msg = "\<lparr>type_options = Map.empty, encodeAB = Inr [1]\<rparr> :: pb_message"
  let ?B = "\<lambda>d :: jsval option. Inr ?msg :: error + pb_message"
  let ?M = "\<lparr>messagesByName = [''Ping'' \<mapsto> ?B],
             messageTypes = [''MessageType_Pong'' \<mapsto> JNum 3]\<rparr>"
  have h1: "messagesByName ?M ''Ping'' = Some ?B" by simp
  have h2: "cleanupInput 1 (JObj []) = (JObj [], None)" by simp
  have h3: "(if truthy (JObj []) then ?B (Some (JObj [])) else ?B None) = Inr ?msg" by simp
  have h4: "\<not> typeof_number (get_prop (type_options ?msg) ''(wire_type)'')"
    by (simp add: get_prop_def)
  have h5: "messageTypes ?M (''MessageType_'' @ ''Ping'') = None" by simp
  have h6: "encodeAB ?msg = Inr [1]" by simp
  from constructor_leaves_type_undefined [OF h1 h2 h3 h4 h5] h6
  have "BuiltMessage_new 1 ?M ''Ping'' (JObj [])
          = (JObj [], Inr \<lparr>message = ?msg, type = JUndefined\<rparr>)
        \<and> buildBuffers 1 ?M ''Ping'' (JObj []) = (JObj [], Inl TypeError)"
    by blast
  with h1 h2 h4 h5 show ?thesis by blast
qed

section \<open>Properties of sending\<close>

lemma state_after_snoc:
  "state_after sender (bufs @ [b]) s = snd (sender b (state_after sender bufs s))"
  by (simp add: state_after_def)

lemma sendBuffers_skip:
  assumes "k \<le> length buffers"
    and "\<forall>i<k. send_outcome sender buffers s i = Fulfilled"
  shows "sendBuffers sender buffers s sent
           = sendBuffers sender (drop k buffers) (state_after sender (take k buffers) s)
               (sent @ take k buffers)"
  using assms
proof (induction k)
  case 0
  show ?case by (simp add: state_after_def)
next
  case (Suc k)
  then have lt: "k < length buffers" and le: "k \<le> length buffers" by simp_all
  from Suc.prems have before: "\<forall>i<k. send_outcome sender buffers s i = Fulfilled" by simp
  let ?s = "state_after sender (take k buffers) s"
  from Suc.prems have "send_outcome sender buffers s k = Fulfilled" by simp
  then have ok: "fst (sender (buffers ! k) ?s) = Fulfilled"
    by (simp add: send_outcome_def)
  have d: "drop k buffers = buffers ! k # drop (Suc k) buffers"
    using lt by (simp add: Cons_nth_drop_Suc)
  have t: "take (Suc k) buffers = take k buffers @ [buffers ! k]"
    using lt by (rule take_Suc_conv_app_nth)
  have "sendBuffers sender buffers s sent
          = sendBuffers sender (drop k buffers) ?s (sent @ take k buffers)"
    using le before by (rule Suc.IH)
  also have "\<dots> = sendBuffers sender (drop (Suc k) buffers)
                     (snd (sender (buffers ! k) ?s)) ((sent @ take k buffers) @ [buffers ! k])"
    unfolding d using ok by (cases "sender (buffers ! k) ?s") simp
  finally show ?case
    unfolding t state_after_snoc by simp
qed

lemma sendBuffers_all_fulfilled:
  assumes "\<forall>i<length buffers. send_outcome sender buffers s i = Fulfilled"
  shows "sendBuffers sender buffers s [] = (Fulfilled, state_after sender buffers s, buffers)"
  using sendBuffers_skip [OF le_refl assms, of "[]"] by simp

lemma sendBuffers_first_failure:
  assumes "k < length buffers"
    and "\<forall>i<k. send_outcome sender buffers s i = Fulfilled"
    and "send_outcome sender buffers s k \<noteq> Fulfilled"
  shows "sendBuffers sender buffers s []
           = (send_outcome sender buffers s k,
              state_after sender (take (Suc k) buffers) s, take (Suc k) buffers)"
proof -
  let ?s = "state_after sender (take k buffers) s"
  have le: "k \<le> length buffers" using assms(1) by simp
  have d: "drop k buffers = buffers ! k # drop (Suc k) buffers"
    using assms(1) by (simp add: Cons_nth_drop_Suc)
  have t: "take (Suc k) buffers = take k buffers @ [buffers ! k]"
    using assms(1) by (rule take_Suc_conv_app_nth)
  have out: "send_outcome sender buffers s k = fst (sender (buffers ! k) ?s)"
    by (simp add: send_outcome_def)
  have "sendBuffers sender buffers s []
          = sendBuffers sender (drop k buffers) ?s ([] @ take k buffers)"
    using le assms(2) by (rule sendBuffers_skip)
  also have "\<dots> = (fst (sender (buffers ! k) ?s), snd (sender (buffers ! k) ?s),
                    take k buffers @ [buffers ! k])"
    unfolding d using assms(3) [unfolded out]
    by (cases "sender (buffers ! k) ?s"; cases "fst (sender (buffers ! k) ?s)") simp_all
  finally show ?thesis
    unfolding t state_after_snoc out .
qed

text \<open>
  Claim C8. \<open>buildAndSend\<close> hands the chunks that \<open>buildBuffers\<close> produced to
  \<open>sendBuffers\<close>, which passes them to the sender strictly in ascending order, each call
  acting on the transport as the completed previous send left it. If every send is
  fulfilled, all chunks are submitted and the operation is fulfilled. If send \<open>k\<close> is the
  first that is not fulfilled, exactly the chunks \<open>0..k\<close> have been submitted, no further
  chunk is, and the outcome of the operation is the outcome of that send (the rejection).
  If building fails, nothing is submitted and the operation is rejected.
\<close>

theorem buildAndSend_sequential:
  "(buildBuffers stack messages name data = (data', Inr buffers)
      \<longrightarrow> buildAndSend stack messages sender name data s
            = (data', sendBuffers sender buffers s []))
   \<and> (buildBuffers stack messages name data = (data', Inl e)
      \<longrightarrow> buildAndSend stack messages sender name data s = (data', Rejected e, s, []))
   \<and> ((\<forall>i<length buffers. send_outcome sender buffers s i = Fulfilled)
      \<longrightarrow> sendBuffers sender buffers s []
            = (Fulfilled, state_after sender buffers s, buffers))
   \<and> (\<forall>k. k < length buffers
           \<and> (\<forall>i<k. send_outcome sender buffers s i = Fulfilled)
           \<and> send_outcome sender buffers s k \<noteq> Fulfilled
      \<longrightarrow> sendBuffers sender buffers s []
            = (send_outcome sender buffers s k,
               state_after sender (take (Suc k) buffers) s, take (Suc k) buffers))"
proof (intro conjI impI allI)
  assume "buildBuffers stack messages name data = (data', Inr buffers)"
  then show "buildAndSend stack messages sender name data s
               = (data', sendBuffers sender buffers s [])"
    by (simp add: buildAndSend_def)
next
  assume "buildBuffers stack messages name data = (data', Inl e)"
  then show "buildAndSend stack messages sender name data s = (data', Rejected e, s, [])"
    by (simp add: buildAndSend_def)
next
  assume "\<forall>i<length buffers. send_outcome sender buffers s i = Fulfilled"
  then show "sendBuffers sender buffers s []
               = (Fulfilled, state_after sender buffers s, buffers)"
    by (rule sendBuffers_all_fulfilled)
next
  fix k
  assume "k < length buffers
          \<and> (\<forall>i<k. send_outcome sender buffers s i = Fulfilled)
          \<and> send_outcome sender buffers s k \<noteq> Fulfilled"
  then show "sendBuffers sender buffers s []
               = (send_outcome sender buffers s k,
                  state_after sender (take (Suc k) buffers) s, take (Suc k) buffers)"
    by (blast intro: sendBuffers_first_failure)
qed

theorem buildAndSend_sequential_witness:
  "send_outcome (\<lambda>b n. (if n = 1 then Rejected RangeError else Fulfilled, Suc n))
       [[1], [2], [3]] (0::nat) 0 = Fulfilled
   \<and> send_outcome (\<lambda>b n. (if n = 1 then Rejected RangeError else Fulfilled, Suc n))
       [[1], [2], [3]] (0::nat) 1 = Rejected RangeError
   \<and> sendBuffers (\<lambda>b n. (if n = 1 then Rejected RangeError else Fulfilled, Suc n))
       [[1], [2], [3]] (0::nat) []
     = (Rejected RangeError, 2, [[1], [2]])"
proof -
  let ?sender = "\<lambda>(b :: byte list) (n :: nat).
                   (if n = 1 then Rejected RangeError else Fulfilled, Suc n)"
  let ?bufs = "[[1], [2], [3]] :: byte list list"
  have o0: "send_outcome ?sender ?bufs 0 0 = Fulfilled"
    by (simp add: send_outcome_def state_after_def)
  have o1: "send_outcome ?sender ?bufs 0 1 = Rejected RangeError"
    by (simp add: send_outcome_def state_after_def)
  have pre: "(1::nat) < length ?bufs
             \<and> (\<forall>i<1. send_outcome ?sender ?bufs 0 i = Fulfilled)
             \<and> send_outcome ?sender ?bufs 0 1 \<noteq> Fulfilled"
    using o0 o1 by simp
  have "sendBuffers ?sender ?bufs 0 []
          = (send_outcome ?sender ?bufs 0 1,
             state_after ?sender (take (Suc 1) ?bufs) 0, take (Suc 1) ?bufs)"
    using buildAndSend_sequential
      [where sender = ?sender and buffers = ?bufs and s = 0 and stack = 0
         and messages = "\<lparr>messagesByName = Map.empty, messageTypes = Map.empty\<rparr>"
         and name = "[]" and data = JNull and data' = JNull and e = RangeError] pre
    by blast
  then have "sendBuffers ?sender ?bufs 0 [] = (Rejected RangeError, 2, [[1], [2]])"
    unfolding o1 by (simp add: state_after_def)
  with o0 o1 show ?thesis by blast
qed

end
